theory Spec2Isabelle
  imports Complex_Main "HOL-Library.Word"
begin

section \<open>Data model\<close>

text \<open>
  The share encoder of \<^verbatim>\<open>utils/imageProcessing\<close>: \<^verbatim>\<open>generateVisualShares\<close>,
  \<^verbatim>\<open>generatePatterns\<close> and \<^verbatim>\<open>writeBlock2x2\<close>.

  A \<^verbatim>\<open>Uint8ClampedArray\<close> is a list of bytes; a write past its end is ignored by
  the platform, which is what list update does, and a read past its end yields
  \<^verbatim>\<open>undefined\<close>, modelled by \<open>None\<close>. JavaScript numbers are idealised: the
  share count is an integer, intensities and random draws are real numbers. Running out
  of memory is not modelled.
\<close>

type_synonym byte = "8 word"

record ImageData =
  width :: nat
  height :: nat
  data :: "byte list"

datatype error = RangeError | TypeError | InvalidStateError | IndexSizeError

text \<open>
  \<^verbatim>\<open>Math.random()\<close>: the \<open>k\<close>-th call of a run returns \<open>rnd k\<close>; every function
  that draws takes the number of draws made so far and returns the new count.
  The platform promises a value in \<open>[0, 1)\<close>.
\<close>

type_synonym random_source = "nat \<Rightarrow> real"

definition rnd_ok :: "random_source \<Rightarrow> bool" where
  "rnd_ok rnd = (\<forall>k. 0 \<le> rnd k \<and> rnd k < 1)"

text \<open>A seedable source for tests: it replays a fixed tape, then returns 0.\<close>

definition replay :: "real list \<Rightarrow> random_source" where
  "replay tape k = (if k < length tape then tape ! k else 0)"

text \<open>A \<^verbatim>\<open>for (let i = a; i < b; i++)\<close> loop over a state, stopping at the first throw.\<close>

primrec for_each :: "nat list \<Rightarrow> (nat \<Rightarrow> 's \<Rightarrow> error + 's) \<Rightarrow> 's \<Rightarrow> error + 's" where
  "for_each [] body st = Inr st"
| "for_each (i # rest) body st =
     (case body i st of Inl e \<Rightarrow> Inl e | Inr st' \<Rightarrow> for_each rest body st')"

section \<open>generatePatterns\<close>

text \<open>\<^verbatim>\<open>const threshold = 128 + (Math.random() * 60 - 30); const isDark = val < threshold;\<close>
  A comparison with \<^verbatim>\<open>undefined\<close> or \<^verbatim>\<open>NaN\<close> is false.\<close>

definition threshold :: "random_source \<Rightarrow> nat \<Rightarrow> real" where
  "threshold rnd k = 128 + (rnd k * 60 - 30)"

definition isDark :: "random_source \<Rightarrow> nat \<Rightarrow> real option \<Rightarrow> bool" where
  "isDark rnd k val = (case val of None \<Rightarrow> False | Some v \<Rightarrow> v < threshold rnd k)"

text \<open>\<^verbatim>\<open>[p[i], p[j]] = [p[j], p[i]]\<close>\<close>

definition swap :: "nat list \<Rightarrow> nat \<Rightarrow> nat \<Rightarrow> nat list" where
  "swap p i j = p[i := p ! j, j := p ! i]"

text \<open>
  The Fisher-Yates loop \<^verbatim>\<open>for (let i = 3; i > 0; i--)\<close>, started at \<open>i\<close>, with
  \<^verbatim>\<open>j = Math.floor(Math.random() * (i + 1))\<close>. A draw in \<open>[0, 1)\<close> gives \<open>j \<le> i\<close>,
  so every read and write of \<^verbatim>\<open>p\<close> is in range and \<^verbatim>\<open>p\<close> keeps the entries 0 to 3.
\<close>

fun shuffle :: "random_source \<Rightarrow> nat \<Rightarrow> nat \<Rightarrow> nat list \<Rightarrow> nat list \<times> nat" where
  "shuffle rnd k 0 p = (p, k)"
| "shuffle rnd k (Suc i') p =
     (let i = Suc i';
          j = nat \<lfloor>rnd k * real (i + 1)\<rfloor>
      in shuffle rnd (Suc k) i' (swap p i j))"

text \<open>
  \<^verbatim>\<open>patterns[s][idx] = 1\<close>: a \<^verbatim>\<open>TypeError\<close> when \<^verbatim>\<open>patterns[s]\<close> is undefined.
  The index \<open>idx\<close> is an entry of \<^verbatim>\<open>p\<close>, hence below 4. A run of such statements is
  \<open>setInks\<close>; it stops at the first throw.
\<close>

definition setInk :: "int list list \<Rightarrow> nat \<Rightarrow> nat \<Rightarrow> error + int list list" where
  "setInk patterns s idx =
     (if s < length patterns then Inr (patterns[s := (patterns ! s)[idx := 1]])
      else Inl TypeError)"

fun setInks :: "int list list \<Rightarrow> (nat \<times> nat) list \<Rightarrow> error + int list list" where
  "setInks patterns [] = Inr patterns"
| "setInks patterns ((s, idx) # rest) =
     (case setInk patterns s idx of Inl e \<Rightarrow> Inl e | Inr patterns' \<Rightarrow> setInks patterns' rest)"

text \<open>
  \<^verbatim>\<open>Array(n)\<close> throws a \<^verbatim>\<open>RangeError\<close> unless \<open>n\<close> is an array length. The result
  carries the number of draws made: one for the threshold, three for the shuffle.
\<close>

definition generatePatterns ::
  "random_source \<Rightarrow> nat \<Rightarrow> real option \<Rightarrow> int \<Rightarrow> error + (int list list \<times> nat)" where
  "generatePatterns rnd k val n =
     (let (p, k') = shuffle rnd (Suc k) 3 [0, 1, 2, 3]
      in if n < 0 \<or> 2 ^ 32 \<le> n then Inl RangeError
         else
           let patterns = replicate (nat n) [0, 0, 0, 0];
               filled =
                 (if \<not> isDark rnd k val then
                    (let idx1 = p ! 0; idx2 = p ! 1
                     in for_each [0 ..< nat n]
                          (\<lambda>s pats. setInks pats [(s, idx1), (s, idx2)]) patterns)
                  else if n = 2 then
                    setInks patterns [(0, p ! 0), (0, p ! 1), (1, p ! 2), (1, p ! 3)]
                  else if n = 3 then
                    setInks patterns
                      [(0, p ! 0), (0, p ! 1), (1, p ! 1), (1, p ! 2), (2, p ! 2), (2, p ! 3)]
                  else
                    setInks patterns
                      [(0, p ! 0), (0, p ! 1), (1, p ! 1), (1, p ! 2),
                       (2, p ! 2), (2, p ! 3), (3, p ! 3), (3, p ! 0)])
           in case filled of Inl e \<Rightarrow> Inl e | Inr pats \<Rightarrow> Inr (pats, k'))"

section \<open>writeBlock2x2\<close>

text \<open>Storing a number into a \<^verbatim>\<open>Uint8ClampedArray\<close> clamps it to \<open>0..255\<close>.\<close>

definition clamp8 :: "int \<Rightarrow> byte" where
  "clamp8 v = (if v < 0 then 0 else if 255 < v then 255 else word_of_int v)"

definition offsets :: "(nat \<times> nat \<times> nat) list" where
  "offsets = [(0, 0, 0), (1, 0, 1), (0, 1, 2), (1, 1, 3)]"

definition writeSlot ::
  "nat \<Rightarrow> nat \<Rightarrow> nat \<Rightarrow> int list \<Rightarrow> int list \<Rightarrow> int list \<Rightarrow> bool \<Rightarrow>
   nat \<times> nat \<times> nat \<Rightarrow> byte list \<Rightarrow> byte list" where
  "writeSlot x y w pR pG pB transparent off buf =
     (case off of (dx, dy, i) \<Rightarrow>
        let targetIdx = ((y * 2 + dy) * w + (x * 2 + dx)) * 4
        in if transparent then
             buf[targetIdx := 0, targetIdx + 1 := 0, targetIdx + 2 := 0, targetIdx + 3 := 0]
           else
             buf[targetIdx := clamp8 ((1 - pR ! i) * 255),
                 targetIdx + 1 := clamp8 ((1 - pG ! i) * 255),
                 targetIdx + 2 := clamp8 ((1 - pB ! i) * 255),
                 targetIdx + 3 := 255])"

definition writeBlock2x2 ::
  "byte list \<Rightarrow> nat \<Rightarrow> nat \<Rightarrow> nat \<Rightarrow> int list \<Rightarrow> int list \<Rightarrow> int list \<Rightarrow> bool \<Rightarrow> byte list" where
  "writeBlock2x2 buf x y w pR pG pB transparent =
     fold (writeSlot x y w pR pG pB transparent) offsets buf"

section \<open>generateVisualShares\<close>

definition rd :: "byte list \<Rightarrow> nat \<Rightarrow> byte option" where
  "rd buf i = (if i < length buf then Some (buf ! i) else None)"

definition num :: "byte option \<Rightarrow> real option" where
  "num v = map_option (\<lambda>c. real (unat c)) v"

definition luminance :: "byte option \<Rightarrow> byte option \<Rightarrow> byte option \<Rightarrow> real option" where
  "luminance r g b =
     (case (r, g, b) of
        (Some r', Some g', Some b') \<Rightarrow>
          Some (0.299 * real (unat r') + 0.587 * real (unat g') + 0.114 * real (unat b'))
      | _ \<Rightarrow> None)"

text \<open>The body of the loop over the shares: \<^verbatim>\<open>writeBlock2x2(sharesData[s], ...)\<close>.\<close>

definition writeShare ::
  "nat \<Rightarrow> nat \<Rightarrow> nat \<Rightarrow> int list list \<Rightarrow> int list list \<Rightarrow> int list list \<Rightarrow> bool \<Rightarrow>
   nat \<Rightarrow> byte list list \<Rightarrow> error + byte list list" where
  "writeShare x y outWidth patR patG patB isTransparent s sharesData =
     (if s < length sharesData then
        Inr (sharesData[s := writeBlock2x2 (sharesData ! s) x y outWidth
                                (patR ! s) (patG ! s) (patB ! s) isTransparent])
      else Inl TypeError)"

text \<open>The body of the loops over \<open>y\<close> and \<open>x\<close>; the state is the share buffers and the
  number of draws made.\<close>

definition processPixel ::
  "random_source \<Rightarrow> ImageData \<Rightarrow> int \<Rightarrow> bool \<Rightarrow> nat \<Rightarrow> nat \<Rightarrow> nat \<Rightarrow>
   byte list list \<times> nat \<Rightarrow> error + (byte list list \<times> nat)" where
  "processPixel rnd sourceData shareCount isColor outWidth y x st =
     (case st of (sharesData, k) \<Rightarrow>
       (let i = (y * width sourceData + x) * 4;
            r = rd (data sourceData) i;
            g = rd (data sourceData) (i + 1);
            b = rd (data sourceData) (i + 2);
            a = rd (data sourceData) (i + 3);
            isTransparent = (case a of None \<Rightarrow> False | Some v \<Rightarrow> unat v < 50);
            lum = luminance r g b;
            channels = (if isColor then [num r, num g, num b] else [lum, lum, lum])
        in (case generatePatterns rnd k (channels ! 0) shareCount of
             Inl e \<Rightarrow> Inl e
           | Inr (patR, k1) \<Rightarrow>
        (case generatePatterns rnd k1 (channels ! 1) shareCount of
             Inl e \<Rightarrow> Inl e
           | Inr (patG, k2) \<Rightarrow>
        (case generatePatterns rnd k2 (channels ! 2) shareCount of
             Inl e \<Rightarrow> Inl e
           | Inr (patB, k3) \<Rightarrow>
        (case for_each [0 ..< nat shareCount]
                (writeShare x y outWidth patR patG patB isTransparent) sharesData of
             Inl e \<Rightarrow> Inl e
           | Inr sharesData' \<Rightarrow> Inr (sharesData', k3)))))))"

text \<open>
  \<^verbatim>\<open>new ImageData(data, sw, sh)\<close> of the platform: the data must be a non-empty
  multiple of four bytes that fills \<open>sw\<close> by \<open>sh\<close> pixels.
\<close>

definition newImageData :: "byte list \<Rightarrow> nat \<Rightarrow> nat \<Rightarrow> error + ImageData" where
  "newImageData d sw sh =
     (if length d = 0 \<or> length d mod 4 \<noteq> 0 then Inl InvalidStateError
      else if sw = 0 \<or> (length d div 4) mod sw \<noteq> 0 \<or> (length d div 4) div sw \<noteq> sh
        then Inl IndexSizeError
      else Inr \<lparr>width = sw, height = sh, data = d\<rparr>)"

primrec mapE :: "('a \<Rightarrow> error + 'b) \<Rightarrow> 'a list \<Rightarrow> error + 'b list" where
  "mapE f [] = Inr []"
| "mapE f (x # xs) =
     (case f x of Inl e \<Rightarrow> Inl e
      | Inr y \<Rightarrow> (case mapE f xs of Inl e \<Rightarrow> Inl e | Inr ys \<Rightarrow> Inr (y # ys)))"

text \<open>
  \<^verbatim>\<open>Array.from({ length: shareCount }, ...)\<close> makes no buffer for a negative count
  and throws a \<^verbatim>\<open>RangeError\<close> beyond the largest array length.
\<close>

definition generateVisualShares ::
  "random_source \<Rightarrow> nat \<Rightarrow> ImageData \<Rightarrow> int \<Rightarrow> bool \<Rightarrow> error + ImageData list" where
  "generateVisualShares rnd k sourceData shareCount isColor =
     (let outWidth = width sourceData * 2;
          outHeight = height sourceData * 2
      in if 2 ^ 32 \<le> shareCount then Inl RangeError
         else
           let sharesData = replicate (nat shareCount) (replicate (outWidth * outHeight * 4) 0)
           in case for_each [0 ..< height sourceData]
                     (\<lambda>y. for_each [0 ..< width sourceData]
                        (processPixel rnd sourceData shareCount isColor outWidth y))
                     (sharesData, k) of
                Inl e \<Rightarrow> Inl e
              | Inr (sharesData', k') \<Rightarrow>
                  mapE (\<lambda>d. newImageData d outWidth outHeight) sharesData')"

section \<open>Notions used to state the properties\<close>

text \<open>The number of ink bits of a pattern, and the slots that carry ink.\<close>

definition inkCount :: "int list \<Rightarrow> nat" where
  "inkCount pat = length (filter (\<lambda>b. b = 1) pat)"

definition inkSet :: "int list \<Rightarrow> nat set" where
  "inkSet pat = set (filter (\<lambda>i. pat ! i = 1) [0 ..< length pat])"

text \<open>The array \<^verbatim>\<open>p\<close> after the shuffle of the call of \<^verbatim>\<open>generatePatterns\<close> that
  starts at draw \<open>k\<close>.\<close>

definition permutation :: "random_source \<Rightarrow> nat \<Rightarrow> nat list" where
  "permutation rnd k = fst (shuffle rnd (Suc k) 3 [0, 1, 2, 3])"

text \<open>Pixel \<open>m\<close> of a buffer: its four bytes R, G, B, A at \<open>4 * m\<close>.\<close>

definition getPixel :: "byte list \<Rightarrow> nat \<Rightarrow> byte \<times> byte \<times> byte \<times> byte" where
  "getPixel buf m = (buf ! (4 * m), buf ! (4 * m + 1), buf ! (4 * m + 2), buf ! (4 * m + 3))"

definition putPixel :: "byte list \<Rightarrow> nat \<Rightarrow> byte \<times> byte \<times> byte \<times> byte \<Rightarrow> byte list" where
  "putPixel buf m v =
     (case v of (r, g, b, a) \<Rightarrow> buf[4 * m := r, 4 * m + 1 := g, 4 * m + 2 := b, 4 * m + 3 := a])"

text \<open>What \<^verbatim>\<open>writeBlock2x2\<close> stores in slot \<open>i\<close>.\<close>

definition slotPixel ::
  "int list \<Rightarrow> int list \<Rightarrow> int list \<Rightarrow> bool \<Rightarrow> nat \<Rightarrow> byte \<times> byte \<times> byte \<times> byte" where
  "slotPixel pR pG pB transparent i =
     (if transparent then (0, 0, 0, 0)
      else (clamp8 ((1 - pR ! i) * 255), clamp8 ((1 - pG ! i) * 255),
            clamp8 ((1 - pB ! i) * 255), 255))"

text \<open>A pixel is fully transparent, or opaque with every colour byte 0 or 255.\<close>

definition binaryPixel :: "byte \<times> byte \<times> byte \<times> byte \<Rightarrow> bool" where
  "binaryPixel v =
     (case v of (r, g, b, a) \<Rightarrow>
        (r = 0 \<and> g = 0 \<and> b = 0 \<and> a = 0)
        \<or> (a = 255 \<and> (r = 0 \<or> r = 255) \<and> (g = 0 \<or> g = 255) \<and> (b = 0 \<or> b = 255)))"

text \<open>The patterns of one call: \<open>n\<close> blocks of four bits.\<close>

definition pats_ok :: "int \<Rightarrow> int list list \<Rightarrow> bool" where
  "pats_ok n pats =
     (length pats = nat n \<and> (\<forall>pat \<in> set pats. length pat = 4 \<and> set pat \<subseteq> {0, 1}))"

definition patternsOf :: "random_source \<Rightarrow> nat \<Rightarrow> real option \<Rightarrow> int \<Rightarrow> int list list" where
  "patternsOf rnd k val n =
     (case generatePatterns rnd k val n of Inl e \<Rightarrow> [] | Inr (pats, k') \<Rightarrow> pats)"

text \<open>\<^verbatim>\<open>const isTransparent = a < 50\<close> for the source pixel \<open>(x, y)\<close>.\<close>

definition transparentAt :: "ImageData \<Rightarrow> nat \<Rightarrow> nat \<Rightarrow> bool" where
  "transparentAt sourceData x y =
     (case rd (data sourceData) ((y * width sourceData + x) * 4 + 3) of
        None \<Rightarrow> False | Some v \<Rightarrow> unat v < 50)"

text \<open>The loop state holds \<open>n\<close> buffers of \<open>L\<close> bytes, each with property \<open>P\<close>.\<close>

definition buffers_ok ::
  "int \<Rightarrow> nat \<Rightarrow> (byte list \<Rightarrow> bool) \<Rightarrow> byte list list \<times> nat \<Rightarrow> bool" where
  "buffers_ok n L P st =
     (length (fst st) = nat n \<and> (\<forall>buf \<in> set (fst st). length buf = L \<and> P buf))"

text \<open>A test image of two pixels: opaque white, and black with alpha 10.\<close>

definition sampleImage :: ImageData where
  "sampleImage = \<lparr>width = 2, height = 1, data = [255, 255, 255, 255, 0, 0, 0, 10]\<rparr>"

section \<open>The shuffle yields a permutation\<close>

lemma shuffle_snd: "snd (shuffle rnd k i p) = k + i"
  by (induction i arbitrary: k p) (simp_all add: Let_def)

lemma draw_le:
  assumes "rnd_ok rnd"
  shows "nat \<lfloor>rnd k * real (Suc i)\<rfloor> \<le> i"
proof -
  have u: "0 \<le> rnd k" "rnd k < 1" using assms by (simp_all add: rnd_ok_def)
  have "rnd k * real (Suc i) < real (Suc i)" using u by simp
  then have "\<lfloor>rnd k * real (Suc i)\<rfloor> < int (Suc i)" by (simp add: floor_less_iff)
  then show ?thesis by simp
qed

lemma shuffle_perm:
  assumes "rnd_ok rnd" "i < length p"
  shows "length (fst (shuffle rnd k i p)) = length p
       \<and> set (fst (shuffle rnd k i p)) = set p
       \<and> distinct (fst (shuffle rnd k i p)) = distinct p"
  using assms(2)
proof (induction i arbitrary: k p)
  case 0
  then show ?case by simp
next
  case (Suc i)
  let ?j = "nat \<lfloor>rnd k * real (Suc i + 1)\<rfloor>"
  have j: "?j \<le> Suc i" using draw_le [OF assms(1), of k "Suc i"] by simp
  then have jl: "?j < length p" using Suc.prems by simp
  have len: "length (swap p (Suc i) ?j) = length p" by (simp add: swap_def)
  have st: "set (swap p (Suc i) ?j) = set p"
    unfolding swap_def using set_swap [OF _ jl, of "Suc i"] Suc.prems by simp
  have di: "distinct (swap p (Suc i) ?j) = distinct p"
    unfolding swap_def using distinct_swap [OF _ jl, of "Suc i"] Suc.prems by simp
  have "i < length (swap p (Suc i) ?j)" using Suc.prems len by simp
  from Suc.IH [OF this, of "Suc k"] len st di
  show ?case by (simp add: Let_def)
qed

lemma permutation_props:
  assumes "rnd_ok rnd"
  shows "length (permutation rnd k) = 4" "set (permutation rnd k) = {0, 1, 2, 3}"
        "distinct (permutation rnd k)"
  using shuffle_perm [OF assms, of 3 "[0, 1, 2, 3]" "Suc k"]
  by (auto simp: permutation_def)

lemma permutation_lt:
  assumes "rnd_ok rnd" "i < 4"
  shows "permutation rnd k ! i < 4"
proof -
  note pp = permutation_props [OF assms(1), of k]
  have "permutation rnd k ! i \<in> set (permutation rnd k)" using pp(1) assms(2) by simp
  then show ?thesis unfolding pp(2) by auto
qed

lemma permutation_neq:
  assumes "rnd_ok rnd" "i < 4" "j < 4" "i \<noteq> j"
  shows "permutation rnd k ! i \<noteq> permutation rnd k ! j"
proof -
  note pp = permutation_props [OF assms(1), of k]
  show ?thesis using nth_eq_iff_index_eq [OF pp(3), of i j] assms(2-4) pp(1) by simp
qed

section \<open>What generatePatterns returns\<close>


lemma for_each_append:
  "for_each (xs @ ys) body st =
     (case for_each xs body st of Inl e \<Rightarrow> Inl e | Inr st' \<Rightarrow> for_each ys body st')"
  by (induction xs arbitrary: st) (simp_all split: sum.splits)

lemma setInks_pair:
  "s < length pats \<Longrightarrow>
   setInks pats [(s, a), (s, b)] = Inr (pats[s := (pats ! s)[a := 1, b := 1]])"
  by (simp add: setInk_def)

lemma light_loop:
  "m \<le> n \<Longrightarrow>
   for_each [0 ..< m] (\<lambda>s pats. setInks pats [(s, a), (s, b)]) (replicate n z)
     = Inr (replicate m (z[a := 1, b := 1]) @ replicate (n - m) z)"
proof (induction m)
  case 0
  then show ?case by simp
next
  case (Suc m)
  then have m: "m < n" by simp
  then obtain r where r: "n - m = Suc r" "n - Suc m = r"
    by (metis Suc_diff_Suc)
  let ?done = "replicate m (z[a := 1, b := 1])"
  have len: "m < length (?done @ replicate (n - m) z)" using m by simp
  have "for_each [0 ..< Suc m] (\<lambda>s pats. setInks pats [(s, a), (s, b)]) (replicate n z)
      = setInks (?done @ replicate (n - m) z) [(m, a), (m, b)]"
    using Suc.IH m by (simp add: for_each_append del: setInks.simps split: sum.splits)
  also have "\<dots> = Inr ((?done @ replicate (n - m) z)
                 [m := ((?done @ replicate (n - m) z) ! m)[a := 1, b := 1]])"
    by (rule setInks_pair [OF len])
  also have "(?done @ replicate (n - m) z)
                 [m := ((?done @ replicate (n - m) z) ! m)[a := 1, b := 1]]
      = replicate (Suc m) (z[a := 1, b := 1]) @ replicate (n - Suc m) z"
    unfolding r by (simp add: list_update_append nth_append replicate_append_same)
  finally show ?case .
qed

lemma setInks_dark2:
  "setInks [z, z] [(0, a), (0, b), (1, c), (1, d)] = Inr [z[a := 1, b := 1], z[c := 1, d := 1]]"
  by (simp add: setInk_def)

lemma setInks_dark3:
  "setInks [z, z, z] [(0, a), (0, b), (1, b), (1, c), (2, c), (2, d)]
     = Inr [z[a := 1, b := 1], z[b := 1, c := 1], z[c := 1, d := 1]]"
  by (simp add: setInk_def numeral_2_eq_2)

lemma setInks_dark4:
  "setInks (z # z # z # z # rest)
     [(0, a), (0, b), (1, b), (1, c), (2, c), (2, d), (3, d), (3, a)]
     = Inr (z[a := 1, b := 1] # z[b := 1, c := 1] # z[c := 1, d := 1] # z[d := 1, a := 1] # rest)"
  by (simp add: setInk_def numeral_2_eq_2 numeral_3_eq_3)

lemma generatePatterns_unfold:
  "generatePatterns rnd k val n =
     (if n < 0 \<or> 2 ^ 32 \<le> n then Inl RangeError
      else case (if \<not> isDark rnd k val then
                   for_each [0 ..< nat n]
                     (\<lambda>s pats. setInks pats
                        [(s, permutation rnd k ! 0), (s, permutation rnd k ! 1)])
                     (replicate (nat n) [0, 0, 0, 0])
                 else if n = 2 then
                   setInks (replicate (nat n) [0, 0, 0, 0])
                     [(0, permutation rnd k ! 0), (0, permutation rnd k ! 1),
                      (1, permutation rnd k ! 2), (1, permutation rnd k ! 3)]
                 else if n = 3 then
                   setInks (replicate (nat n) [0, 0, 0, 0])
                     [(0, permutation rnd k ! 0), (0, permutation rnd k ! 1),
                      (1, permutation rnd k ! 1), (1, permutation rnd k ! 2),
                      (2, permutation rnd k ! 2), (2, permutation rnd k ! 3)]
                 else
                   setInks (replicate (nat n) [0, 0, 0, 0])
                     [(0, permutation rnd k ! 0), (0, permutation rnd k ! 1),
                      (1, permutation rnd k ! 1), (1, permutation rnd k ! 2),
                      (2, permutation rnd k ! 2), (2, permutation rnd k ! 3),
                      (3, permutation rnd k ! 3), (3, permutation rnd k ! 0)]) of
             Inl e \<Rightarrow> Inl e
           | Inr pats \<Rightarrow> Inr (pats, k + 4))"
proof -
  obtain p k' where s: "shuffle rnd (Suc k) 3 [0, 1, 2, 3] = (p, k')"
    by (cases "shuffle rnd (Suc k) 3 [0, 1, 2, 3]")
  have k': "k' = k + 4" using shuffle_snd [of rnd "Suc k" 3 "[0, 1, 2, 3]"] s by simp
  have p: "permutation rnd k = p" unfolding permutation_def s by simp
  show ?thesis
    unfolding generatePatterns_def s p k' Let_def prod.case by (rule refl)
qed

lemma generatePatterns_light:
  assumes "\<not> isDark rnd k val" "0 \<le> n" "n < 2 ^ 32"
  shows "generatePatterns rnd k val n =
           Inr (replicate (nat n)
                  ([0, 0, 0, 0][permutation rnd k ! 0 := 1, permutation rnd k ! 1 := 1]), k + 4)"
proof -
  define z :: "int list" where "z = [0, 0, 0, 0]"
  have n: "\<not> (n < 0 \<or> 2 ^ 32 \<le> n)" using assms by simp
  show ?thesis
    unfolding generatePatterns_unfold z_def [symmetric]
    using n assms(1)
    by (simp add: light_loop [of "nat n" "nat n"] del: setInks.simps)
qed

lemma generatePatterns_dark2:
  assumes "isDark rnd k val"
  shows "generatePatterns rnd k val 2 =
           Inr ([[0, 0, 0, 0][permutation rnd k ! 0 := 1, permutation rnd k ! 1 := 1],
                 [0, 0, 0, 0][permutation rnd k ! 2 := 1, permutation rnd k ! 3 := 1]], k + 4)"
proof -
  define z :: "int list" where "z = [0, 0, 0, 0]"
  have rep: "replicate (nat 2) z = [z, z]"
    by (simp add: numeral_2_eq_2)
  show ?thesis
    unfolding generatePatterns_unfold z_def [symmetric] rep
    using assms setInks_dark2 [of z "permutation rnd k ! 0" "permutation rnd k ! 1"
                   "permutation rnd k ! 2" "permutation rnd k ! 3"]
    by (simp del: setInks.simps)
qed

lemma generatePatterns_dark3:
  assumes "isDark rnd k val"
  shows "generatePatterns rnd k val 3 =
           Inr ([[0, 0, 0, 0][permutation rnd k ! 0 := 1, permutation rnd k ! 1 := 1],
                 [0, 0, 0, 0][permutation rnd k ! 1 := 1, permutation rnd k ! 2 := 1],
                 [0, 0, 0, 0][permutation rnd k ! 2 := 1, permutation rnd k ! 3 := 1]], k + 4)"
proof -
  define z :: "int list" where "z = [0, 0, 0, 0]"
  have rep: "replicate (nat 3) z = [z, z, z]"
    by (simp add: numeral_3_eq_3)
  show ?thesis
    unfolding generatePatterns_unfold z_def [symmetric] rep
    using assms setInks_dark3 [of z "permutation rnd k ! 0" "permutation rnd k ! 1"
                   "permutation rnd k ! 2" "permutation rnd k ! 3"]
    by (simp del: setInks.simps)
qed

lemma generatePatterns_dark_ge4:
  assumes "isDark rnd k val" "4 \<le> n" "n < 2 ^ 32"
  shows "generatePatterns rnd k val n =
           Inr ([[0, 0, 0, 0][permutation rnd k ! 0 := 1, permutation rnd k ! 1 := 1],
                 [0, 0, 0, 0][permutation rnd k ! 1 := 1, permutation rnd k ! 2 := 1],
                 [0, 0, 0, 0][permutation rnd k ! 2 := 1, permutation rnd k ! 3 := 1],
                 [0, 0, 0, 0][permutation rnd k ! 3 := 1, permutation rnd k ! 0 := 1]]
                @ replicate (nat n - 4) [0, 0, 0, 0], k + 4)"
proof -
  define z :: "int list" where "z = [0, 0, 0, 0]"
  have "4 \<le> nat n" using assms(2) by simp
  then have "nat n = Suc (Suc (Suc (Suc (nat n - 4))))" by simp
  then have rep: "replicate (nat n) z = z # z # z # z # replicate (nat n - 4) z"
    by (metis replicate_Suc)
  have n: "\<not> (n < 0 \<or> 2 ^ 32 \<le> n)" "n \<noteq> 2" "n \<noteq> 3" using assms by simp_all
  show ?thesis
    unfolding generatePatterns_unfold z_def [symmetric] rep
    using assms(1) n
      setInks_dark4 [of z "replicate (nat n - 4) z" "permutation rnd k ! 0"
        "permutation rnd k ! 1" "permutation rnd k ! 2" "permutation rnd k ! 3"]
    by (simp del: setInks.simps)
qed

section \<open>Ink pairs\<close>


lemma lt4_cases: "(a::nat) < 4 \<Longrightarrow> a = 0 \<or> a = 1 \<or> a = 2 \<or> a = 3"
  by arith

lemma upt4: "[0 ..< 4] = [0, 1, 2, 3]"
  by (simp add: upt_rec)

lemma ink_pair_length: "length ([0, 0, 0, 0::int][a := 1, b := 1]) = 4"
  by (simp only: length_list_update) simp

lemma ink_pair_bits: "set ([0, 0, 0, 0::int][a := 1, b := 1]) \<subseteq> {0, 1}"
proof -
  have "set ([0, 0, 0, 0::int][a := 1, b := 1]) \<subseteq> insert 1 (set ([0, 0, 0, 0::int][a := 1]))"
    by (rule set_update_subset_insert)
  also have "\<dots> \<subseteq> insert 1 (insert 1 (set [0, 0, 0, 0::int]))"
    using set_update_subset_insert [of "[0, 0, 0, 0::int]" a 1] by blast
  finally show ?thesis by auto
qed

lemma ink_pair_count:
  assumes "a < 4" "b < 4" "a \<noteq> b"
  shows "inkCount ([0, 0, 0, 0][a := 1, b := 1]) = 2"
  using lt4_cases [OF assms(1)] lt4_cases [OF assms(2)] assms(3)
  by (elim disjE) (simp_all add: inkCount_def)

lemma ink_pair_set:
  assumes "a < 4" "b < 4"
  shows "inkSet ([0, 0, 0, 0][a := 1, b := 1]) = {a, b}"
  using lt4_cases [OF assms(1)] lt4_cases [OF assms(2)]
  by (elim disjE) (auto simp add: inkSet_def upt4)

lemma clear_count: "inkCount [0, 0, 0, 0] = 0"
  by (simp add: inkCount_def)

lemma clear_set: "inkSet [0, 0, 0, 0] = {}"
  by (simp add: inkSet_def upt4)

section \<open>Properties of the pattern generator\<close>


lemma rnd_ok_replay:
  assumes "\<forall>u \<in> set tape. 0 \<le> u \<and> u < 1"
  shows "rnd_ok (replay tape)"
  using assms by (auto simp: rnd_ok_def replay_def)

text \<open>
  Claim C2. For a share count of 2, 3 or 4, every pattern that \<^verbatim>\<open>generatePatterns\<close>
  returns has four bits, each 0 or 1, of which exactly two are ink, whether the channel was
  classified light or dark.
\<close>

theorem ink_count_invariant:
  assumes "rnd_ok rnd" and "n = 2 \<or> n = 3 \<or> n = 4"
  shows "\<exists>pats. generatePatterns rnd k val n = Inr (pats, k + 4)
           \<and> length pats = nat n
           \<and> (\<forall>pat \<in> set pats. length pat = 4 \<and> set pat \<subseteq> {0, 1} \<and> inkCount pat = 2)"
proof -
  let ?p = "permutation rnd k"
  define ink where "ink = (\<lambda>i j. [0, 0, 0, 0::int][?p ! i := 1, ?p ! j := 1])"
  have good: "length (ink i j) = 4 \<and> set (ink i j) \<subseteq> {0, 1} \<and> inkCount (ink i j) = 2"
    if "i < 4" "j < 4" "i \<noteq> j" for i j
    unfolding ink_def
    using ink_pair_length [of "?p ! i" "?p ! j"] ink_pair_bits [of "?p ! i" "?p ! j"]
      ink_pair_count [OF permutation_lt [OF assms(1) that(1)] permutation_lt [OF assms(1) that(2)]
        permutation_neq [OF assms(1) that]]
    by blast
  show ?thesis
  proof (cases "isDark rnd k val")
    case False
    have "0 \<le> n" "n < 2 ^ 32" using assms(2) by auto
    from generatePatterns_light [OF False this]
    have "generatePatterns rnd k val n = Inr (replicate (nat n) (ink 0 1), k + 4)"
      unfolding ink_def .
    then show ?thesis using good [of 0 1] by simp
  next
    case True
    from assms(2) consider "n = 2" | "n = 3" | "n = 4" by blast
    then show ?thesis
    proof cases
      case 1
      have "generatePatterns rnd k val 2 = Inr ([ink 0 1, ink 2 3], k + 4)"
        unfolding ink_def by (rule generatePatterns_dark2 [OF True])
      then show ?thesis unfolding 1
        using good [of 0 1] good [of 2 3] by simp
    next
      case 2
      have "generatePatterns rnd k val 3 = Inr ([ink 0 1, ink 1 2, ink 2 3], k + 4)"
        unfolding ink_def by (rule generatePatterns_dark3 [OF True])
      then show ?thesis unfolding 2
        using good [of 0 1] good [of 1 2] good [of 2 3] by simp
    next
      case 3
      have "generatePatterns rnd k val 4
              = Inr ([ink 0 1, ink 1 2, ink 2 3, ink 3 0] @ replicate (nat 4 - 4) [0, 0, 0, 0], k + 4)"
        unfolding ink_def by (rule generatePatterns_dark_ge4 [OF True]) simp_all
      then show ?thesis unfolding 3
        using good [of 0 1] good [of 1 2] good [of 2 3] good [of 3 0] by simp
    qed
  qed
qed

theorem ink_count_invariant_witness:
  "rnd_ok (replay [1/2, 3/4, 1/3, 1/2]) \<and> ((3::int) = 2 \<or> (3::int) = 3 \<or> (3::int) = 4)
   \<and> (\<exists>pats. generatePatterns (replay [1/2, 3/4, 1/3, 1/2]) 0 (Some 0) 3 = Inr (pats, 0 + 4)
           \<and> length pats = nat 3
           \<and> (\<forall>pat \<in> set pats. length pat = 4 \<and> set pat \<subseteq> {0, 1} \<and> inkCount pat = 2))"
proof -
  have h1: "rnd_ok (replay [1/2, 3/4, 1/3, 1/2])" by (rule rnd_ok_replay) simp
  have h2: "(3::int) = 2 \<or> (3::int) = 3 \<or> (3::int) = 4" by simp
  from ink_count_invariant [OF h1 h2, of 0 "Some 0"] h1 h2 show ?thesis by blast
qed

lemma permutation_slots:
  assumes "rnd_ok rnd"
  shows "{permutation rnd k ! 0, permutation rnd k ! 1,
          permutation rnd k ! 2, permutation rnd k ! 3} = {0, 1, 2, 3}"
proof -
  let ?p = "permutation rnd k"
  have "?p = map ((!) ?p) [0 ..< 4]"
    using permutation_props(1) [OF assms, of k] map_nth [of ?p] by simp
  then have "set ?p = set (map ((!) ?p) [0, 1, 2, 3])" by (simp only: upt4)
  then have "set ?p = {?p ! 0, ?p ! 1, ?p ! 2, ?p ! 3}" by simp
  then show ?thesis using permutation_props(2) [OF assms, of k] by simp
qed

text \<open>
  Claim C3. For a channel classified dark and a share count of 2, 3 or 4, the ink slots
  of the returned patterns together are all four slots \<open>{0, 1, 2, 3}\<close>.
\<close>

theorem dark_coverage:
  assumes "rnd_ok rnd" and "n = 2 \<or> n = 3 \<or> n = 4" and "isDark rnd k val"
  shows "\<exists>pats. generatePatterns rnd k val n = Inr (pats, k + 4)
           \<and> length pats = nat n
           \<and> (\<Union>pat \<in> set pats. inkSet pat) = {0, 1, 2, 3}"
proof -
  let ?p = "permutation rnd k"
  define ink where "ink = (\<lambda>i j. [0, 0, 0, 0::int][?p ! i := 1, ?p ! j := 1])"
  have iset: "inkSet (ink i j) = {?p ! i, ?p ! j}" if "i < 4" "j < 4" for i j
    unfolding ink_def
    using ink_pair_set [OF permutation_lt [OF assms(1) that(1)] permutation_lt [OF assms(1) that(2)]] .
  note all = permutation_slots [OF assms(1), of k]
  from assms(2) consider "n = 2" | "n = 3" | "n = 4" by blast
  then show ?thesis
  proof cases
    case 1
    have gp: "generatePatterns rnd k val 2 = Inr ([ink 0 1, ink 2 3], k + 4)"
      unfolding ink_def by (rule generatePatterns_dark2 [OF assms(3)])
    have "(\<Union>pat \<in> set [ink 0 1, ink 2 3]. inkSet pat) = {?p ! 0, ?p ! 1, ?p ! 2, ?p ! 3}"
      by (simp add: iset) blast
    then show ?thesis unfolding 1 gp all by simp
  next
    case 2
    have gp: "generatePatterns rnd k val 3 = Inr ([ink 0 1, ink 1 2, ink 2 3], k + 4)"
      unfolding ink_def by (rule generatePatterns_dark3 [OF assms(3)])
    have "(\<Union>pat \<in> set [ink 0 1, ink 1 2, ink 2 3]. inkSet pat)
            = {?p ! 0, ?p ! 1, ?p ! 2, ?p ! 3}"
      by (simp add: iset) blast
    then show ?thesis unfolding 2 gp all by simp
  next
    case 3
    have "generatePatterns rnd k val 4
            = Inr ([ink 0 1, ink 1 2, ink 2 3, ink 3 0] @ replicate (nat 4 - 4) [0, 0, 0, 0], k + 4)"
      unfolding ink_def by (rule generatePatterns_dark_ge4 [OF assms(3)]) simp_all
    then have gp: "generatePatterns rnd k val 4 = Inr ([ink 0 1, ink 1 2, ink 2 3, ink 3 0], k + 4)"
      by simp
    have "(\<Union>pat \<in> set [ink 0 1, ink 1 2, ink 2 3, ink 3 0]. inkSet pat)
            = {?p ! 0, ?p ! 1, ?p ! 2, ?p ! 3}"
      by (simp add: iset) blast
    then show ?thesis unfolding 3 gp all by simp
  qed
qed

theorem dark_coverage_witness:
  "rnd_ok (replay [1/2, 3/4, 1/3, 1/2]) \<and> ((4::int) = 2 \<or> (4::int) = 3 \<or> (4::int) = 4)
   \<and> isDark (replay [1/2, 3/4, 1/3, 1/2]) 0 (Some 100)
   \<and> (\<exists>pats. generatePatterns (replay [1/2, 3/4, 1/3, 1/2]) 0 (Some 100) 4 = Inr (pats, 0 + 4)
           \<and> length pats = nat 4
           \<and> (\<Union>pat \<in> set pats. inkSet pat) = {0, 1, 2, 3})"
proof -
  have h1: "rnd_ok (replay [1/2, 3/4, 1/3, 1/2])" by (rule rnd_ok_replay) simp
  have h2: "(4::int) = 2 \<or> (4::int) = 3 \<or> (4::int) = 4" by simp
  have h3: "isDark (replay [1/2, 3/4, 1/3, 1/2]) 0 (Some 100)"
    by (simp add: isDark_def threshold_def replay_def)
  from dark_coverage [OF h1 h2 h3] h1 h2 h3 show ?thesis by blast
qed

text \<open>
  Claim C4. For a channel classified light, every one of the \<open>n\<close> returned patterns is
  the same four-bit pattern, whose ink is exactly at the permuted positions \<open>p[0]\<close> and
  \<open>p[1]\<close>.
\<close>

theorem light_uniformity:
  assumes "rnd_ok rnd" and "\<not> isDark rnd k val" and "0 \<le> n" and "n < 2 ^ 32"
  shows "\<exists>pat. generatePatterns rnd k val n = Inr (replicate (nat n) pat, k + 4)
           \<and> length pat = 4
           \<and> inkSet pat = {permutation rnd k ! 0, permutation rnd k ! 1}"
proof -
  let ?p = "permutation rnd k"
  define pat where "pat = [0, 0, 0, 0::int][?p ! 0 := 1, ?p ! 1 := 1]"
  have gp: "generatePatterns rnd k val n = Inr (replicate (nat n) pat, k + 4)"
    unfolding pat_def by (rule generatePatterns_light [OF assms(2-4)])
  have len: "length pat = 4" unfolding pat_def by (rule ink_pair_length)
  have iset: "inkSet pat = {?p ! 0, ?p ! 1}"
    unfolding pat_def
    by (rule ink_pair_set [OF permutation_lt [OF assms(1)] permutation_lt [OF assms(1)]]) simp_all
  from gp len iset show ?thesis by blast
qed

theorem light_uniformity_witness:
  "rnd_ok (replay [1/2, 3/4, 1/3, 1/2]) \<and> \<not> isDark (replay [1/2, 3/4, 1/3, 1/2]) 0 (Some 200)
   \<and> (0::int) \<le> 3 \<and> (3::int) < 2 ^ 32
   \<and> (\<exists>pat. generatePatterns (replay [1/2, 3/4, 1/3, 1/2]) 0 (Some 200) 3
                = Inr (replicate (nat 3) pat, 0 + 4)
           \<and> length pat = 4
           \<and> inkSet pat = {permutation (replay [1/2, 3/4, 1/3, 1/2]) 0 ! 0,
                            permutation (replay [1/2, 3/4, 1/3, 1/2]) 0 ! 1})"
proof -
  have h1: "rnd_ok (replay [1/2, 3/4, 1/3, 1/2])" by (rule rnd_ok_replay) simp
  have h2: "\<not> isDark (replay [1/2, 3/4, 1/3, 1/2]) 0 (Some 200)"
    by (simp add: isDark_def threshold_def replay_def)
  have h3: "(0::int) \<le> 3" by simp
  have h4: "(3::int) < 2 ^ 32" by simp
  from light_uniformity [OF h1 h2 h3 h4] h1 h2 h3 h4 show ?thesis by blast
qed

text \<open>
  Claim C5. For a channel classified dark the ink sets follow the covering design over the
  permuted positions: for two shares \<open>{p0,p1}\<close> and \<open>{p2,p3}\<close>; for three shares
  \<open>{p0,p1}\<close>, \<open>{p1,p2}\<close>, \<open>{p2,p3}\<close>; for four shares also \<open>{p3,p0}\<close>.
\<close>

theorem covering_design:
  assumes "rnd_ok rnd" and "isDark rnd k val"
  shows "(n = 2 \<longrightarrow> (\<exists>pats. generatePatterns rnd k val n = Inr (pats, k + 4)
             \<and> map inkSet pats =
                 [{permutation rnd k ! 0, permutation rnd k ! 1},
                  {permutation rnd k ! 2, permutation rnd k ! 3}]))
       \<and> (n = 3 \<longrightarrow> (\<exists>pats. generatePatterns rnd k val n = Inr (pats, k + 4)
             \<and> map inkSet pats =
                 [{permutation rnd k ! 0, permutation rnd k ! 1},
                  {permutation rnd k ! 1, permutation rnd k ! 2},
                  {permutation rnd k ! 2, permutation rnd k ! 3}]))
       \<and> (n = 4 \<longrightarrow> (\<exists>pats. generatePatterns rnd k val n = Inr (pats, k + 4)
             \<and> map inkSet pats =
                 [{permutation rnd k ! 0, permutation rnd k ! 1},
                  {permutation rnd k ! 1, permutation rnd k ! 2},
                  {permutation rnd k ! 2, permutation rnd k ! 3},
                  {permutation rnd k ! 3, permutation rnd k ! 0}]))"
proof -
  let ?p = "permutation rnd k"
  define ink where "ink = (\<lambda>i j. [0, 0, 0, 0::int][?p ! i := 1, ?p ! j := 1])"
  have iset: "inkSet (ink i j) = {?p ! i, ?p ! j}" if "i < 4" "j < 4" for i j
    unfolding ink_def
    using ink_pair_set [OF permutation_lt [OF assms(1) that(1)] permutation_lt [OF assms(1) that(2)]] .
  have gp2: "generatePatterns rnd k val 2 = Inr ([ink 0 1, ink 2 3], k + 4)"
    unfolding ink_def by (rule generatePatterns_dark2 [OF assms(2)])
  have gp3: "generatePatterns rnd k val 3 = Inr ([ink 0 1, ink 1 2, ink 2 3], k + 4)"
    unfolding ink_def by (rule generatePatterns_dark3 [OF assms(2)])
  have "generatePatterns rnd k val 4
          = Inr ([ink 0 1, ink 1 2, ink 2 3, ink 3 0] @ replicate (nat 4 - 4) [0, 0, 0, 0], k + 4)"
    unfolding ink_def by (rule generatePatterns_dark_ge4 [OF assms(2)]) simp_all
  then have gp4: "generatePatterns rnd k val 4 = Inr ([ink 0 1, ink 1 2, ink 2 3, ink 3 0], k + 4)"
    by simp
  have c2: "n = 2 \<longrightarrow> (\<exists>pats. generatePatterns rnd k val n = Inr (pats, k + 4)
             \<and> map inkSet pats = [{?p ! 0, ?p ! 1}, {?p ! 2, ?p ! 3}])"
    using gp2 by (simp add: iset)
  have c3: "n = 3 \<longrightarrow> (\<exists>pats. generatePatterns rnd k val n = Inr (pats, k + 4)
             \<and> map inkSet pats = [{?p ! 0, ?p ! 1}, {?p ! 1, ?p ! 2}, {?p ! 2, ?p ! 3}])"
    using gp3 by (simp add: iset)
  have c4: "n = 4 \<longrightarrow> (\<exists>pats. generatePatterns rnd k val n = Inr (pats, k + 4)
             \<and> map inkSet pats =
                 [{?p ! 0, ?p ! 1}, {?p ! 1, ?p ! 2}, {?p ! 2, ?p ! 3}, {?p ! 3, ?p ! 0}])"
    using gp4 by (simp add: iset)
  from c2 c3 c4 show ?thesis by blast
qed

theorem covering_design_witness:
  "rnd_ok (replay [1/4, 3/4, 1/3, 1/2]) \<and> isDark (replay [1/4, 3/4, 1/3, 1/2]) 0 (Some 90)
   \<and> (\<exists>pats. generatePatterns (replay [1/4, 3/4, 1/3, 1/2]) 0 (Some 90) 2 = Inr (pats, 0 + 4)
         \<and> map inkSet pats =
             [{permutation (replay [1/4, 3/4, 1/3, 1/2]) 0 ! 0,
               permutation (replay [1/4, 3/4, 1/3, 1/2]) 0 ! 1},
              {permutation (replay [1/4, 3/4, 1/3, 1/2]) 0 ! 2,
               permutation (replay [1/4, 3/4, 1/3, 1/2]) 0 ! 3}])
   \<and> (\<exists>pats. generatePatterns (replay [1/4, 3/4, 1/3, 1/2]) 0 (Some 90) 3 = Inr (pats, 0 + 4)
         \<and> map inkSet pats =
             [{permutation (replay [1/4, 3/4, 1/3, 1/2]) 0 ! 0,
               permutation (replay [1/4, 3/4, 1/3, 1/2]) 0 ! 1},
              {permutation (replay [1/4, 3/4, 1/3, 1/2]) 0 ! 1,
               permutation (replay [1/4, 3/4, 1/3, 1/2]) 0 ! 2},
              {permutation (replay [1/4, 3/4, 1/3, 1/2]) 0 ! 2,
               permutation (replay [1/4, 3/4, 1/3, 1/2]) 0 ! 3}])
   \<and> (\<exists>pats. generatePatterns (replay [1/4, 3/4, 1/3, 1/2]) 0 (Some 90) 4 = Inr (pats, 0 + 4)
         \<and> map inkSet pats =
             [{permutation (replay [1/4, 3/4, 1/3, 1/2]) 0 ! 0,
               permutation (replay [1/4, 3/4, 1/3, 1/2]) 0 ! 1},
              {permutation (replay [1/4, 3/4, 1/3, 1/2]) 0 ! 1,
               permutation (replay [1/4, 3/4, 1/3, 1/2]) 0 ! 2},
              {permutation (replay [1/4, 3/4, 1/3, 1/2]) 0 ! 2,
               permutation (replay [1/4, 3/4, 1/3, 1/2]) 0 ! 3},
              {permutation (replay [1/4, 3/4, 1/3, 1/2]) 0 ! 3,
               permutation (replay [1/4, 3/4, 1/3, 1/2]) 0 ! 0}])"
proof -
  have h1: "rnd_ok (replay [1/4, 3/4, 1/3, 1/2])" by (rule rnd_ok_replay) simp
  have h2: "isDark (replay [1/4, 3/4, 1/3, 1/2]) 0 (Some 90)"
    by (simp add: isDark_def threshold_def replay_def)
  from covering_design [OF h1 h2, of 2] covering_design [OF h1 h2, of 3]
    covering_design [OF h1 h2, of 4] h1 h2
  show ?thesis by simp
qed

text \<open>
  Claim C9. For a channel classified dark and more than four shares, \<open>n\<close> patterns are
  returned and every pattern at index 4 or above is all clear: it has no ink bit.
\<close>

theorem fallback_leaves_extra_shares_clear:
  assumes "isDark rnd k val" and "4 < n" and "n < 2 ^ 32"
  shows "\<exists>pats. generatePatterns rnd k val n = Inr (pats, k + 4)
           \<and> length pats = nat n
           \<and> (\<forall>i. 4 \<le> i \<and> i < nat n \<longrightarrow> pats ! i = [0, 0, 0, 0] \<and> inkCount (pats ! i) = 0
                                           \<and> inkSet (pats ! i) = {})"
proof -
  let ?p = "permutation rnd k"
  define ink where "ink = (\<lambda>i j. [0, 0, 0, 0::int][?p ! i := 1, ?p ! j := 1])"
  define pats where
    "pats = [ink 0 1, ink 1 2, ink 2 3, ink 3 0] @ replicate (nat n - 4) [0, 0, 0, 0]"
  have gp: "generatePatterns rnd k val n = Inr (pats, k + 4)"
    unfolding pats_def ink_def
    by (rule generatePatterns_dark_ge4 [OF assms(1)]) (use assms(2,3) in simp_all)
  have len: "length pats = nat n" unfolding pats_def using assms(2) by simp
  have rest: "pats ! i = [0, 0, 0, 0]" if "4 \<le> i" "i < nat n" for i
    unfolding pats_def using that by (simp add: nth_append)
  from gp len rest clear_count clear_set show ?thesis by simp
qed

theorem fallback_leaves_extra_shares_clear_witness:
  "isDark (replay [1/4, 3/4, 1/3, 1/2]) 0 (Some 90) \<and> (4::int) < 6 \<and> (6::int) < 2 ^ 32
   \<and> (\<exists>pats. generatePatterns (replay [1/4, 3/4, 1/3, 1/2]) 0 (Some 90) 6 = Inr (pats, 0 + 4)
           \<and> length pats = nat 6
           \<and> (\<forall>i. 4 \<le> i \<and> i < nat 6 \<longrightarrow> pats ! i = [0, 0, 0, 0] \<and> inkCount (pats ! i) = 0
                                           \<and> inkSet (pats ! i) = {}))"
proof -
  have h1: "isDark (replay [1/4, 3/4, 1/3, 1/2]) 0 (Some 90)"
    by (simp add: isDark_def threshold_def replay_def)
  have h2: "(4::int) < 6" by simp
  have h3: "(6::int) < 2 ^ 32" by simp
  from fallback_leaves_extra_shares_clear [OF h1 h2 h3] h1 h2 h3 show ?thesis by blast
qed

section \<open>The block writer, pixel by pixel\<close>

lemma length_putPixel: "length (putPixel buf m v) = length buf"
  by (cases v) (simp add: putPixel_def)

lemma getPixel_putPixel_same:
  "4 * m + 3 < length buf \<Longrightarrow> getPixel (putPixel buf m v) m = v"
  by (cases v) (simp add: putPixel_def getPixel_def)

lemma getPixel_putPixel_other:
  "q \<noteq> m \<Longrightarrow> getPixel (putPixel buf m v) q = getPixel buf q"
  by (cases v) (simp add: putPixel_def getPixel_def)

lemma writeSlot_putPixel:
  "writeSlot x y w pR pG pB transparent (dx, dy, i) buf
     = putPixel buf ((y * 2 + dy) * w + (x * 2 + dx)) (slotPixel pR pG pB transparent i)"
  by (simp add: writeSlot_def putPixel_def slotPixel_def Let_def mult.commute)

lemma writeBlock2x2_putPixel:
  "writeBlock2x2 buf x y w pR pG pB transparent =
     putPixel (putPixel (putPixel (putPixel buf
       ((y * 2 + 0) * w + (x * 2 + 0)) (slotPixel pR pG pB transparent 0))
       ((y * 2 + 0) * w + (x * 2 + 1)) (slotPixel pR pG pB transparent 1))
       ((y * 2 + 1) * w + (x * 2 + 0)) (slotPixel pR pG pB transparent 2))
       ((y * 2 + 1) * w + (x * 2 + 1)) (slotPixel pR pG pB transparent 3)"
  unfolding writeBlock2x2_def offsets_def fold_simps writeSlot_putPixel by (rule refl)

lemma length_writeBlock2x2: "length (writeBlock2x2 buf x y w pR pG pB transparent) = length buf"
  by (simp only: writeBlock2x2_putPixel length_putPixel)

lemma slots_distinct:
  assumes "2 \<le> (w::nat)"
  shows "(y * 2 + 0) * w + (x * 2 + 0) \<noteq> (y * 2 + 0) * w + (x * 2 + 1)"
        "(y * 2 + 0) * w + (x * 2 + 0) \<noteq> (y * 2 + 1) * w + (x * 2 + 0)"
        "(y * 2 + 0) * w + (x * 2 + 0) \<noteq> (y * 2 + 1) * w + (x * 2 + 1)"
        "(y * 2 + 0) * w + (x * 2 + 1) \<noteq> (y * 2 + 1) * w + (x * 2 + 0)"
        "(y * 2 + 0) * w + (x * 2 + 1) \<noteq> (y * 2 + 1) * w + (x * 2 + 1)"
        "(y * 2 + 1) * w + (x * 2 + 0) \<noteq> (y * 2 + 1) * w + (x * 2 + 1)"
  using assms by (simp_all add: algebra_simps)

lemma writeBlock2x2_slot:
  assumes "2 \<le> w" and "(dx, dy, i) \<in> set offsets"
    and "4 * ((y * 2 + dy) * w + (x * 2 + dx)) + 3 < length buf"
  shows "getPixel (writeBlock2x2 buf x y w pR pG pB transparent) ((y * 2 + dy) * w + (x * 2 + dx))
           = slotPixel pR pG pB transparent i"
proof -
  note d = slots_distinct [OF assms(1), of y x]
  from assms(2) consider "dx = 0 \<and> dy = 0 \<and> i = 0" | "dx = 1 \<and> dy = 0 \<and> i = 1"
    | "dx = 0 \<and> dy = 1 \<and> i = 2" | "dx = 1 \<and> dy = 1 \<and> i = 3"
    by (auto simp: offsets_def)
  then show ?thesis
  proof cases
    case 1
    then show ?thesis
      using assms(3) d unfolding writeBlock2x2_putPixel
      by (simp add: getPixel_putPixel_other getPixel_putPixel_same length_putPixel)
  next
    case 2
    then show ?thesis
      using assms(3) d unfolding writeBlock2x2_putPixel
      by (simp add: getPixel_putPixel_other getPixel_putPixel_same length_putPixel)
  next
    case 3
    then show ?thesis
      using assms(3) d unfolding writeBlock2x2_putPixel
      by (simp add: getPixel_putPixel_other getPixel_putPixel_same length_putPixel)
  next
    case 4
    then show ?thesis
      using assms(3) d unfolding writeBlock2x2_putPixel
      by (simp add: getPixel_putPixel_other getPixel_putPixel_same length_putPixel)
  qed
qed

text \<open>
  Claim C8. For a pixel that is not transparent, \<^verbatim>\<open>writeBlock2x2\<close> leaves in every slot
  \<open>(dx, dy, i)\<close> of the block the bytes \<open>R = (1 - pR[i]) * 255\<close>,
  \<open>G = (1 - pG[i]) * 255\<close>, \<open>B = (1 - pB[i]) * 255\<close> and \<open>A = 255\<close>; an ink bit 1
  gives the colour byte 0 and an ink bit 0 gives 255. The slot lies inside the buffer and a
  row holds at least two pixels, as for every call made by \<^verbatim>\<open>generateVisualShares\<close>.
\<close>

theorem block_writer_opaque:
  assumes "2 \<le> w" and "(dx, dy, i) \<in> set offsets"
    and "targetIdx = ((y * 2 + dy) * w + (x * 2 + dx)) * 4"
    and "targetIdx + 3 < length buf"
  shows "writeBlock2x2 buf x y w pR pG pB False ! targetIdx = clamp8 ((1 - pR ! i) * 255)
       \<and> writeBlock2x2 buf x y w pR pG pB False ! (targetIdx + 1) = clamp8 ((1 - pG ! i) * 255)
       \<and> writeBlock2x2 buf x y w pR pG pB False ! (targetIdx + 2) = clamp8 ((1 - pB ! i) * 255)
       \<and> writeBlock2x2 buf x y w pR pG pB False ! (targetIdx + 3) = 255
       \<and> clamp8 ((1 - 1) * 255) = 0 \<and> clamp8 ((1 - 0) * 255) = 255"
proof -
  have t: "targetIdx = 4 * ((y * 2 + dy) * w + (x * 2 + dx))" using assms(3) by simp
  have "4 * ((y * 2 + dy) * w + (x * 2 + dx)) + 3 < length buf" using assms(4) t by simp
  from writeBlock2x2_slot [OF assms(1,2) this, of pR pG pB False]
  have "writeBlock2x2 buf x y w pR pG pB False ! targetIdx = clamp8 ((1 - pR ! i) * 255)
       \<and> writeBlock2x2 buf x y w pR pG pB False ! (targetIdx + 1) = clamp8 ((1 - pG ! i) * 255)
       \<and> writeBlock2x2 buf x y w pR pG pB False ! (targetIdx + 2) = clamp8 ((1 - pB ! i) * 255)
       \<and> writeBlock2x2 buf x y w pR pG pB False ! (targetIdx + 3) = 255"
    unfolding getPixel_def slotPixel_def t by simp
  moreover have "clamp8 ((1 - 1) * 255) = 0 \<and> clamp8 ((1 - 0) * 255) = 255"
    by (simp add: clamp8_def)
  ultimately show ?thesis by blast
qed

theorem block_writer_opaque_witness:
  "(2::nat) \<le> 2 \<and> (1, 0, 1) \<in> set offsets \<and> (4::nat) = ((0 * 2 + 0) * 2 + (0 * 2 + 1)) * 4
   \<and> 4 + 3 < length (replicate 16 (7::byte))
   \<and> writeBlock2x2 (replicate 16 7) 0 0 2 [1, 0, 0, 1] [0, 1, 1, 0] [1, 1, 0, 0] False ! 4
        = clamp8 ((1 - [1, 0, 0, 1] ! 1) * 255)
   \<and> writeBlock2x2 (replicate 16 7) 0 0 2 [1, 0, 0, 1] [0, 1, 1, 0] [1, 1, 0, 0] False ! (4 + 1)
        = clamp8 ((1 - [0, 1, 1, 0] ! 1) * 255)
   \<and> writeBlock2x2 (replicate 16 7) 0 0 2 [1, 0, 0, 1] [0, 1, 1, 0] [1, 1, 0, 0] False ! (4 + 2)
        = clamp8 ((1 - [1, 1, 0, 0] ! 1) * 255)
   \<and> writeBlock2x2 (replicate 16 7) 0 0 2 [1, 0, 0, 1] [0, 1, 1, 0] [1, 1, 0, 0] False ! (4 + 3)
        = 255
   \<and> clamp8 ((1 - 1) * 255) = 0 \<and> clamp8 ((1 - 0) * 255) = 255"
proof -
  have h1: "(2::nat) \<le> 2" by simp
  have h2: "(1, 0, 1) \<in> set offsets" by (simp add: offsets_def)
  have h3: "(4::nat) = ((0 * 2 + 0) * 2 + (0 * 2 + 1)) * 4" by simp
  have h4: "4 + 3 < length (replicate 16 (7::byte))" by simp
  from block_writer_opaque [OF h1 h2 h3 h4, of "[1, 0, 0, 1]" "[0, 1, 1, 0]" "[1, 1, 0, 0]"]
    h1 h2 h3 h4
  show ?thesis by blast
qed

section \<open>One source pixel\<close>

lemma clear_bits: "set [0, 0, 0, 0::int] \<subseteq> {0, 1}"
  by simp

lemma generatePatterns_total:
  assumes "2 \<le> n" "n < 2 ^ 32"
  shows "\<exists>pats. generatePatterns rnd k val n = Inr (pats, k + 4) \<and> pats_ok n pats"
proof -
  let ?p = "permutation rnd k"
  define ink where "ink = (\<lambda>i j. [0, 0, 0, 0::int][?p ! i := 1, ?p ! j := 1])"
  define z where "z = [0, 0, 0, 0::int]"
  have good: "length (ink i j) = 4 \<and> set (ink i j) \<subseteq> {0, 1}" for i j
    unfolding ink_def using ink_pair_length ink_pair_bits by blast
  have zgood: "length z = 4 \<and> set z \<subseteq> {0, 1}" unfolding z_def by simp
  show ?thesis
  proof (cases "isDark rnd k val")
    case False
    have "0 \<le> n" using assms(1) by simp
    from generatePatterns_light [OF False this assms(2)]
    have "generatePatterns rnd k val n = Inr (replicate (nat n) (ink 0 1), k + 4)"
      unfolding ink_def .
    then show ?thesis using good [of 0 1] by (simp add: pats_ok_def)
  next
    case True
    from assms(1) consider "n = 2" | "n = 3" | "4 \<le> n" by linarith
    then show ?thesis
    proof cases
      case 1
      have "generatePatterns rnd k val 2 = Inr ([ink 0 1, ink 2 3], k + 4)"
        unfolding ink_def by (rule generatePatterns_dark2 [OF True])
      then show ?thesis unfolding 1
        using good [of 0 1] good [of 2 3] by (simp add: pats_ok_def)
    next
      case 2
      have "generatePatterns rnd k val 3 = Inr ([ink 0 1, ink 1 2, ink 2 3], k + 4)"
        unfolding ink_def by (rule generatePatterns_dark3 [OF True])
      then show ?thesis unfolding 2
        using good [of 0 1] good [of 1 2] good [of 2 3] by (simp add: pats_ok_def)
    next
      case 3
      have "generatePatterns rnd k val n
              = Inr ([ink 0 1, ink 1 2, ink 2 3, ink 3 0] @ replicate (nat n - 4) z, k + 4)"
        unfolding ink_def z_def by (rule generatePatterns_dark_ge4 [OF True 3 assms(2)])
      then show ?thesis
        using good [of 0 1] good [of 1 2] good [of 2 3] good [of 3 0] zgood 3
        by (auto simp add: pats_ok_def)
    qed
  qed
qed

lemma generatePatterns_patternsOf:
  assumes "2 \<le> n" "n < 2 ^ 32"
  shows "generatePatterns rnd k val n = Inr (patternsOf rnd k val n, k + 4)"
    and "pats_ok n (patternsOf rnd k val n)"
  using generatePatterns_total [OF assms, of rnd k val] by (auto simp: patternsOf_def)

lemma writeShare_loop:
  "m \<le> length sd \<Longrightarrow>
   \<exists>sd'. for_each [0 ..< m] (writeShare x y ow patR patG patB tr) sd = Inr sd'
        \<and> length sd' = length sd
        \<and> (\<forall>s < length sd. sd' ! s =
              (if s < m then writeBlock2x2 (sd ! s) x y ow (patR ! s) (patG ! s) (patB ! s) tr
               else sd ! s))"
proof (induction m)
  case 0
  then show ?case by simp
next
  case (Suc m)
  then obtain sd' where
    loop: "for_each [0 ..< m] (writeShare x y ow patR patG patB tr) sd = Inr sd'"
    and len: "length sd' = length sd"
    and nth: "\<forall>s < length sd. sd' ! s =
              (if s < m then writeBlock2x2 (sd ! s) x y ow (patR ! s) (patG ! s) (patB ! s) tr
               else sd ! s)"
    by auto
  have m: "m < length sd" using Suc.prems by simp
  let ?sd = "sd'[m := writeBlock2x2 (sd' ! m) x y ow (patR ! m) (patG ! m) (patB ! m) tr]"
  have step: "writeShare x y ow patR patG patB tr m sd' = Inr ?sd"
    using m len by (simp add: writeShare_def)
  have "for_each [0 ..< Suc m] (writeShare x y ow patR patG patB tr) sd = Inr ?sd"
    by (simp add: for_each_append loop step)
  moreover have "length ?sd = length sd" using len by simp
  moreover have "\<forall>s < length sd. ?sd ! s =
              (if s < Suc m then writeBlock2x2 (sd ! s) x y ow (patR ! s) (patG ! s) (patB ! s) tr
               else sd ! s)"
    using nth len m by (auto simp: nth_list_update less_Suc_eq)
  ultimately show ?case by blast
qed

lemma processPixel_step:
  assumes "2 \<le> n" "n < 2 ^ 32" "length sd = nat n"
  shows "\<exists>sd' patR patG patB.
           processPixel rnd src n isColor ow y x (sd, k) = Inr (sd', k + 12)
         \<and> length sd' = length sd
         \<and> pats_ok n patR \<and> pats_ok n patG \<and> pats_ok n patB
         \<and> (\<forall>s < length sd. sd' ! s =
               writeBlock2x2 (sd ! s) x y ow (patR ! s) (patG ! s) (patB ! s)
                 (transparentAt src x y))"
proof -
  note gp = generatePatterns_patternsOf [OF assms(1,2), of rnd]
  let ?i = "(y * width src + x) * 4"
  let ?cs = "if isColor
             then [num (rd (data src) ?i), num (rd (data src) (?i + 1)), num (rd (data src) (?i + 2))]
             else [luminance (rd (data src) ?i) (rd (data src) (?i + 1)) (rd (data src) (?i + 2)),
                   luminance (rd (data src) ?i) (rd (data src) (?i + 1)) (rd (data src) (?i + 2)),
                   luminance (rd (data src) ?i) (rd (data src) (?i + 1)) (rd (data src) (?i + 2))]"
  let ?patR = "patternsOf rnd k (?cs ! 0) n"
  let ?patG = "patternsOf rnd (k + 4) (?cs ! 1) n"
  let ?patB = "patternsOf rnd (k + 4 + 4) (?cs ! 2) n"
  have eq: "processPixel rnd src n isColor ow y x (sd, k) =
          (case for_each [0 ..< nat n]
                  (writeShare x y ow ?patR ?patG ?patB (transparentAt src x y)) sd of
             Inl e \<Rightarrow> Inl e
           | Inr sd' \<Rightarrow> Inr (sd', k + 4 + 4 + 4))"
    unfolding processPixel_def Let_def prod.case gp(1) sum.case transparentAt_def
    by (rule refl)
  from writeShare_loop [of "nat n" sd x y ow ?patR ?patG ?patB "transparentAt src x y"] assms(3)
  obtain sd' where
    loop: "for_each [0 ..< nat n]
             (writeShare x y ow ?patR ?patG ?patB (transparentAt src x y)) sd = Inr sd'"
    and len: "length sd' = length sd"
    and nth: "\<forall>s < length sd. sd' ! s =
              (if s < nat n
               then writeBlock2x2 (sd ! s) x y ow (?patR ! s) (?patG ! s) (?patB ! s)
                      (transparentAt src x y)
               else sd ! s)"
    by auto
  have "processPixel rnd src n isColor ow y x (sd, k) = Inr (sd', k + 12)"
    unfolding eq loop by simp
  moreover have "\<forall>s < length sd. sd' ! s =
       writeBlock2x2 (sd ! s) x y ow (?patR ! s) (?patG ! s) (?patB ! s) (transparentAt src x y)"
    using nth assms(3) by simp
  ultimately show ?thesis using len gp(2) by blast
qed

section \<open>An invariant of the share buffers\<close>

lemma for_each_invariant:
  assumes "I st"
    and "\<And>i st. i \<in> set xs \<Longrightarrow> I st \<Longrightarrow> \<exists>st'. body i st = Inr st' \<and> I st'"
  shows "\<exists>st'. for_each xs body st = Inr st' \<and> I st'"
  using assms
proof (induction xs arbitrary: st)
  case Nil
  then show ?case by simp
next
  case (Cons i xs)
  from Cons.prems(2) [of i st] Cons.prems(1)
  obtain st1 where s1: "body i st = Inr st1" and i1: "I st1" by auto
  have "\<exists>st'. for_each xs body st1 = Inr st' \<and> I st'"
    by (rule Cons.IH [OF i1]) (use Cons.prems(2) in auto)
  then show ?case using s1 by simp
qed

lemma mapE_all:
  assumes "\<forall>x \<in> set xs. f x = Inr (g x)"
  shows "mapE f xs = Inr (map g xs)"
  using assms by (induction xs) simp_all

lemma newImageData_ok:
  assumes "length d = sw * sh * 4" "0 < sw" "0 < sh"
  shows "newImageData d sw sh = Inr \<lparr>width = sw, height = sh, data = d\<rparr>"
  using assms by (simp add: newImageData_def)

lemma encode_invariant:
  assumes n: "2 \<le> n" "n < 2 ^ 32"
    and dims: "0 < width src" "0 < height src"
    and init: "Q (replicate (width src * 2 * (height src * 2) * 4) 0)"
    and step: "\<And>buf x y pR pG pB.
                 Q buf \<Longrightarrow> length buf = width src * 2 * (height src * 2) * 4 \<Longrightarrow>
                 x < width src \<Longrightarrow> y < height src \<Longrightarrow>
                 length pR = 4 \<and> set pR \<subseteq> {0, 1} \<Longrightarrow>
                 length pG = 4 \<and> set pG \<subseteq> {0, 1} \<Longrightarrow>
                 length pB = 4 \<and> set pB \<subseteq> {0, 1} \<Longrightarrow>
                 Q (writeBlock2x2 buf x y (width src * 2) pR pG pB (transparentAt src x y))"
  shows "\<exists>shares. generateVisualShares rnd k src n isColor = Inr shares
           \<and> length shares = nat n
           \<and> (\<forall>sh \<in> set shares. width sh = width src * 2 \<and> height sh = height src * 2
                 \<and> length (data sh) = width src * 2 * (height src * 2) * 4 \<and> Q (data sh))"
proof -
  let ?ow = "width src * 2" and ?oh = "height src * 2"
  let ?L = "?ow * ?oh * 4"
  define I where "I = (\<lambda>st :: byte list list \<times> nat.
     length (fst st) = nat n \<and> (\<forall>b \<in> set (fst st). length b = ?L \<and> Q b))"
  let ?init = "(replicate (nat n) (replicate ?L (0::byte)), k)"
  have I0: "I ?init" unfolding I_def using init by simp
  have pixel: "\<exists>st'. processPixel rnd src n isColor ?ow y x st = Inr st' \<and> I st'"
    if x: "x < width src" and y: "y < height src" and inv: "I st" for x y st
  proof -
    obtain sd k0 where st: "st = (sd, k0)" by (cases st)
    have len: "length sd = nat n" and bufs: "\<forall>b \<in> set sd. length b = ?L \<and> Q b"
      using inv unfolding I_def st by simp_all
    from processPixel_step [OF n len, of rnd src isColor ?ow y x k0]
    obtain sd' patR patG patB where
      pp: "processPixel rnd src n isColor ?ow y x (sd, k0) = Inr (sd', k0 + 12)"
      and len': "length sd' = length sd"
      and ok: "pats_ok n patR" "pats_ok n patG" "pats_ok n patB"
      and nth: "\<forall>s < length sd. sd' ! s =
               writeBlock2x2 (sd ! s) x y ?ow (patR ! s) (patG ! s) (patB ! s)
                 (transparentAt src x y)"
      by blast
    have "length b = ?L \<and> Q b" if b: "b \<in> set sd'" for b
    proof -
      from b obtain s where s: "s < length sd'" and bs: "b = sd' ! s"
        by (auto simp: in_set_conv_nth)
      have sl: "s < length sd" using s len' by simp
      have old: "length (sd ! s) = ?L" "Q (sd ! s)" using bufs sl by simp_all
      have sR: "patR ! s \<in> set patR" and sG: "patG ! s \<in> set patG" and sB: "patB ! s \<in> set patB"
        using ok sl len unfolding pats_ok_def by simp_all
      have pR: "length (patR ! s) = 4 \<and> set (patR ! s) \<subseteq> {0, 1}"
        using ok(1) sR unfolding pats_ok_def by blast
      have pG: "length (patG ! s) = 4 \<and> set (patG ! s) \<subseteq> {0, 1}"
        using ok(2) sG unfolding pats_ok_def by blast
      have pB: "length (patB ! s) = 4 \<and> set (patB ! s) \<subseteq> {0, 1}"
        using ok(3) sB unfolding pats_ok_def by blast
      have b': "b = writeBlock2x2 (sd ! s) x y ?ow (patR ! s) (patG ! s) (patB ! s)
                      (transparentAt src x y)"
        using nth sl bs by simp
      have "Q b" unfolding b' by (rule step [OF old(2) old(1) x y pR pG pB])
      moreover have "length b = ?L" unfolding b' length_writeBlock2x2 by (rule old(1))
      ultimately show ?thesis by simp
    qed
    then have "I (sd', k0 + 12)" unfolding I_def using len len' by simp
    then show ?thesis using pp st by blast
  qed
  have row: "\<exists>st'. for_each [0 ..< width src] (processPixel rnd src n isColor ?ow y) st = Inr st'
                  \<and> I st'"
    if y: "y < height src" and inv: "I st" for y st
    by (rule for_each_invariant [of I, OF inv]) (use pixel y in auto)
  have "\<exists>st'. for_each [0 ..< height src]
                 (\<lambda>y. for_each [0 ..< width src] (processPixel rnd src n isColor ?ow y)) ?init
               = Inr st' \<and> I st'"
    by (rule for_each_invariant [of I, OF I0]) (use row in auto)
  then obtain sd' k' where
    loops: "for_each [0 ..< height src]
              (\<lambda>y. for_each [0 ..< width src] (processPixel rnd src n isColor ?ow y)) ?init
            = Inr (sd', k')"
    and fin: "I (sd', k')"
    by (metis surj_pair)
  have len: "length sd' = nat n" and bufs: "\<forall>b \<in> set sd'. length b = ?L \<and> Q b"
    using fin unfolding I_def by simp_all
  let ?mk = "\<lambda>d. \<lparr>width = ?ow, height = ?oh, data = d\<rparr>"
  have "\<forall>d \<in> set sd'. newImageData d ?ow ?oh = Inr (?mk d)"
    using bufs dims by (simp add: newImageData_ok)
  then have me: "mapE (\<lambda>d. newImageData d ?ow ?oh) sd' = Inr (map ?mk sd')"
    by (rule mapE_all)
  have "generateVisualShares rnd k src n isColor = Inr (map ?mk sd')"
    unfolding generateVisualShares_def Let_def using n(2) loops me by simp
  moreover have "length (map ?mk sd') = nat n" using len by simp
  moreover have "\<forall>sh \<in> set (map ?mk sd'). width sh = ?ow \<and> height sh = ?oh
                   \<and> length (data sh) = ?L \<and> Q (data sh)"
    using bufs by simp
  ultimately show ?thesis by blast
qed

section \<open>Share count and dimensions\<close>

lemma encode_negative:
  assumes "n < 0" "0 < width src" "0 < height src"
  shows "generateVisualShares rnd k src n isColor = Inl RangeError"
proof -
  have gp: "generatePatterns rnd k' val n = Inl RangeError" for k' val
    using assms(1) by (simp add: generatePatterns_def split_beta del: shuffle.simps)
  have pp: "processPixel rnd src n isColor ow 0 0 (sd, k) = Inl RangeError" for ow sd
    by (simp add: processPixel_def Let_def gp)
  have w: "[0 ..< width src] = 0 # [1 ..< width src]"
    using assms(2) by (simp add: upt_conv_Cons)
  have h: "[0 ..< height src] = 0 # [1 ..< height src]"
    using assms(3) by (simp add: upt_conv_Cons)
  have n: "\<not> 2 ^ 32 \<le> n" using assms(1) by simp
  show ?thesis
    unfolding generateVisualShares_def Let_def w h using n by (simp add: pp)
qed

text \<open>
  Claim C1, amended. \<^verbatim>\<open>generateVisualShares\<close> does not validate the share count. For
  an image of positive dimensions and a count above 4 (an array length) it rejects nothing:
  it returns that many buffers of twice the width and height. For a negative count it fails
  with the \<^verbatim>\<open>RangeError\<close> that \<^verbatim>\<open>Array(n)\<close> throws in \<^verbatim>\<open>generatePatterns\<close> at the first
  pixel.
\<close>

theorem no_share_count_validation:
  assumes "0 < width src" and "0 < height src"
  shows "(4 < n \<and> n < 2 ^ 32 \<longrightarrow>
            (\<exists>shares. generateVisualShares rnd k src n isColor = Inr shares
               \<and> length shares = nat n
               \<and> (\<forall>sh \<in> set shares. width sh = width src * 2 \<and> height sh = height src * 2)))
       \<and> (n < 0 \<longrightarrow> generateVisualShares rnd k src n isColor = Inl RangeError)"
proof -
  have "\<exists>shares. generateVisualShares rnd k src n isColor = Inr shares
               \<and> length shares = nat n
               \<and> (\<forall>sh \<in> set shares. width sh = width src * 2 \<and> height sh = height src * 2)"
    if n: "4 < n" "n < 2 ^ 32"
  proof -
    have n2: "2 \<le> n" using n(1) by simp
    from encode_invariant [of n src "\<lambda>_. True" rnd k isColor, OF n2 n(2) assms]
    show ?thesis by blast
  qed
  moreover have "generateVisualShares rnd k src n isColor = Inl RangeError" if "n < 0"
    by (rule encode_negative [OF that assms])
  ultimately show ?thesis by blast
qed

theorem no_share_count_validation_witness:
  "0 < width sampleImage \<and> 0 < height sampleImage
   \<and> (4::int) < 5 \<and> (5::int) < 2 ^ 32
   \<and> (\<exists>shares. generateVisualShares (replay []) 0 sampleImage 5 False = Inr shares
          \<and> length shares = nat 5
          \<and> (\<forall>sh \<in> set shares. width sh = width sampleImage * 2
                                \<and> height sh = height sampleImage * 2))
   \<and> (-1::int) < 0
   \<and> generateVisualShares (replay []) 0 sampleImage (-1) False = Inl RangeError"
proof -
  have h1: "0 < width sampleImage" by (simp add: sampleImage_def)
  have h2: "0 < height sampleImage" by (simp add: sampleImage_def)
  have h3: "(4::int) < 5 \<and> (5::int) < 2 ^ 32" by simp
  have h4: "(-1::int) < 0" by simp
  from no_share_count_validation [OF h1 h2, of 5 "replay []" 0 False]
    no_share_count_validation [OF h1 h2, of "-1" "replay []" 0 False] h1 h2 h3 h4
  show ?thesis by blast
qed

text \<open>
  Claim C7. For an image of \<open>width\<close> by \<open>height\<close> pixels and a share count of 2, 3
  or 4, the encoder returns exactly that many buffers, each \<open>2 * width\<close> by
  \<open>2 * height\<close> pixels.
\<close>

theorem dimension_law:
  assumes "2 \<le> n" and "n \<le> 4" and "0 < width src" and "0 < height src"
  shows "\<exists>shares. generateVisualShares rnd k src n isColor = Inr shares
           \<and> length shares = nat n
           \<and> (\<forall>sh \<in> set shares. width sh = 2 * width src \<and> height sh = 2 * height src
                 \<and> length (data sh) = 4 * (width sh * height sh))"
proof -
  have n: "n < 2 ^ 32" using assms(2) by simp
  from encode_invariant [of n src "\<lambda>_. True" rnd k isColor, OF assms(1) n assms(3,4)]
  obtain shares where r: "generateVisualShares rnd k src n isColor = Inr shares"
    and len: "length shares = nat n"
    and each: "\<forall>sh \<in> set shares. width sh = width src * 2 \<and> height sh = height src * 2
                 \<and> length (data sh) = width src * 2 * (height src * 2) * 4"
    by blast
  have "\<forall>sh \<in> set shares. width sh = 2 * width src \<and> height sh = 2 * height src
                 \<and> length (data sh) = 4 * (width sh * height sh)"
    using each by (simp add: mult.commute)
  with r len show ?thesis by blast
qed

theorem dimension_law_witness:
  "(2::int) \<le> 3 \<and> (3::int) \<le> 4 \<and> 0 < width sampleImage \<and> 0 < height sampleImage
   \<and> (\<exists>shares. generateVisualShares (replay [1/2, 1/4]) 0 sampleImage 3 True = Inr shares
           \<and> length shares = nat 3
           \<and> (\<forall>sh \<in> set shares. width sh = 2 * width sampleImage
                 \<and> height sh = 2 * height sampleImage
                 \<and> length (data sh) = 4 * (width sh * height sh)))"
proof -
  have h1: "(2::int) \<le> 3" by simp
  have h2: "(3::int) \<le> 4" by simp
  have h3: "0 < width sampleImage" by (simp add: sampleImage_def)
  have h4: "0 < height sampleImage" by (simp add: sampleImage_def)
  from dimension_law [OF h1 h2 h3 h4, of "replay [1/2, 1/4]" 0 True] h1 h2 h3 h4
  show ?thesis by blast
qed

section \<open>A run with five shares\<close>

lemma permutation_zero_tape: "permutation (replay []) k = [1, 2, 3, 0]"
  by (simp add: permutation_def replay_def swap_def numeral_3_eq_3 numeral_2_eq_2)

lemma dark_zero_tape: "isDark (replay []) k (Some 0)"
  by (simp add: isDark_def threshold_def replay_def)

lemma patterns_five:
  "generatePatterns (replay []) k (Some 0) 5
     = Inr ([[0, 1, 1, 0], [0, 0, 1, 1], [1, 0, 0, 1], [1, 1, 0, 0], [0, 0, 0, 0]], k + 4)"
proof -
  have "generatePatterns (replay []) k (Some 0) 5
     = Inr ([[0, 0, 0, 0][[1, 2, 3, 0] ! 0 := 1, [1, 2, 3, 0] ! 1 := 1],
             [0, 0, 0, 0][[1, 2, 3, 0] ! 1 := 1, [1, 2, 3, 0] ! 2 := 1],
             [0, 0, 0, 0][[1, 2, 3, 0] ! 2 := 1, [1, 2, 3, 0] ! 3 := 1],
             [0, 0, 0, 0][[1, 2, 3, 0] ! 3 := 1, [1, 2, 3, 0] ! 0 := 1]]
            @ replicate (nat 5 - 4) [0, 0, 0, 0], k + 4)"
    using generatePatterns_dark_ge4 [OF dark_zero_tape, of 5 k]
    unfolding permutation_zero_tape by simp
  then show ?thesis by (simp add: eval_nat_numeral)
qed

lemma block_0: "writeBlock2x2 (replicate 16 0) 0 0 2 [0, 1, 1, 0] [0, 1, 1, 0] [0, 1, 1, 0] False
     = [255, 255, 255, 255, 0, 0, 0, 255, 0, 0, 0, 255, 255, 255, 255, 255]"
  by (simp add: writeBlock2x2_def offsets_def writeSlot_def clamp8_def eval_nat_numeral)

lemma block_1: "writeBlock2x2 (replicate 16 0) 0 0 2 [0, 0, 1, 1] [0, 0, 1, 1] [0, 0, 1, 1] False
     = [255, 255, 255, 255, 255, 255, 255, 255, 0, 0, 0, 255, 0, 0, 0, 255]"
  by (simp add: writeBlock2x2_def offsets_def writeSlot_def clamp8_def eval_nat_numeral)

lemma block_2: "writeBlock2x2 (replicate 16 0) 0 0 2 [1, 0, 0, 1] [1, 0, 0, 1] [1, 0, 0, 1] False
     = [0, 0, 0, 255, 255, 255, 255, 255, 255, 255, 255, 255, 0, 0, 0, 255]"
  by (simp add: writeBlock2x2_def offsets_def writeSlot_def clamp8_def eval_nat_numeral)

lemma block_3: "writeBlock2x2 (replicate 16 0) 0 0 2 [1, 1, 0, 0] [1, 1, 0, 0] [1, 1, 0, 0] False
     = [0, 0, 0, 255, 0, 0, 0, 255, 255, 255, 255, 255, 255, 255, 255, 255]"
  by (simp add: writeBlock2x2_def offsets_def writeSlot_def clamp8_def eval_nat_numeral)

lemma block_4: "writeBlock2x2 (replicate 16 0) 0 0 2 [0, 0, 0, 0] [0, 0, 0, 0] [0, 0, 0, 0] False
     = [255, 255, 255, 255, 255, 255, 255, 255, 255, 255, 255, 255, 255, 255, 255, 255]"
  by (simp add: writeBlock2x2_def offsets_def writeSlot_def clamp8_def eval_nat_numeral)

lemma for_each_singleton: "for_each [0 ..< Suc 0] body st = body 0 st"
  by (simp split: sum.splits)

lemma pixel_five:
  "processPixel (replay []) \<lparr>width = 1, height = 1, data = [0, 0, 0, 255]\<rparr> 5 False 2 0 0
     (replicate 5 (replicate 16 0), 0)
   = Inr ([[255, 255, 255, 255, 0, 0, 0, 255, 0, 0, 0, 255, 255, 255, 255, 255],
           [255, 255, 255, 255, 255, 255, 255, 255, 0, 0, 0, 255, 0, 0, 0, 255],
           [0, 0, 0, 255, 255, 255, 255, 255, 255, 255, 255, 255, 0, 0, 0, 255],
           [0, 0, 0, 255, 0, 0, 0, 255, 255, 255, 255, 255, 255, 255, 255, 255],
           [255, 255, 255, 255, 255, 255, 255, 255,
            255, 255, 255, 255, 255, 255, 255, 255]], 12)"
proof -
  let ?P = "[[0, 1, 1, 0], [0, 0, 1, 1], [1, 0, 0, 1], [1, 1, 0, 0], [0, 0, 0, 0::int]]"
  let ?z = "replicate 16 (0::byte)"
  have rep: "replicate 5 ?z = [?z, ?z, ?z, ?z, ?z]"
    by (simp add: eval_nat_numeral)
  have five: "[0 ..< nat 5] = [0, Suc 0, Suc (Suc 0), Suc (Suc (Suc 0)), Suc (Suc (Suc (Suc 0)))]"
    by (simp add: eval_nat_numeral upt_rec)
  have lum: "luminance (Some 0) (Some 0) (Some 0) = Some 0" by (simp add: luminance_def)
  have tr: "\<not> unat (255::byte) < 50" by simp
  have loop: "for_each [0 ..< nat 5] (writeShare 0 0 2 ?P ?P ?P False) [?z, ?z, ?z, ?z, ?z]
     = Inr [writeBlock2x2 ?z 0 0 2 [0, 1, 1, 0] [0, 1, 1, 0] [0, 1, 1, 0] False,
            writeBlock2x2 ?z 0 0 2 [0, 0, 1, 1] [0, 0, 1, 1] [0, 0, 1, 1] False,
            writeBlock2x2 ?z 0 0 2 [1, 0, 0, 1] [1, 0, 0, 1] [1, 0, 0, 1] False,
            writeBlock2x2 ?z 0 0 2 [1, 1, 0, 0] [1, 1, 0, 0] [1, 1, 0, 0] False,
            writeBlock2x2 ?z 0 0 2 [0, 0, 0, 0] [0, 0, 0, 0] [0, 0, 0, 0] False]"
    unfolding five by (simp add: writeShare_def)
  have "processPixel (replay []) \<lparr>width = 1, height = 1, data = [0, 0, 0, 255]\<rparr> 5 False 2 0 0
     ([?z, ?z, ?z, ?z, ?z], 0)
     = (case for_each [0 ..< nat 5] (writeShare 0 0 2 ?P ?P ?P False) [?z, ?z, ?z, ?z, ?z] of
          Inl e \<Rightarrow> Inl e | Inr sd \<Rightarrow> Inr (sd, 4 + 4 + 4))"
    unfolding processPixel_def Let_def prod.case
    by (simp add: rd_def lum patterns_five tr del: upt.simps)
  then show ?thesis
    unfolding rep loop block_0 block_1 block_2 block_3 block_4 by simp
qed

text \<open>
  Claim C1 as stated fails: a request for five shares of a one-pixel black image is not
  rejected. Five buffers come back, and the fifth carries no ink at all.
\<close>

theorem five_shares_counterexample:
  "generateVisualShares (replay []) 0 \<lparr>width = 1, height = 1, data = [0, 0, 0, 255]\<rparr> 5 False
     = Inr [\<lparr>width = 2, height = 2,
              data = [255, 255, 255, 255, 0, 0, 0, 255, 0, 0, 0, 255, 255, 255, 255, 255]\<rparr>,
            \<lparr>width = 2, height = 2,
              data = [255, 255, 255, 255, 255, 255, 255, 255, 0, 0, 0, 255, 0, 0, 0, 255]\<rparr>,
            \<lparr>width = 2, height = 2,
              data = [0, 0, 0, 255, 255, 255, 255, 255, 255, 255, 255, 255, 0, 0, 0, 255]\<rparr>,
            \<lparr>width = 2, height = 2,
              data = [0, 0, 0, 255, 0, 0, 0, 255, 255, 255, 255, 255, 255, 255, 255, 255]\<rparr>,
            \<lparr>width = 2, height = 2,
              data = [255, 255, 255, 255, 255, 255, 255, 255,
                      255, 255, 255, 255, 255, 255, 255, 255]\<rparr>]"
proof -
  have mk: "newImageData d 2 2 = Inr \<lparr>width = 2, height = 2, data = d\<rparr>" if "length d = 16" for d
    using that by (simp add: newImageData_def)
  show ?thesis
    using pixel_five by (simp add: generateVisualShares_def mk)
qed

section \<open>Blocks do not overlap\<close>

lemma row_column_unique:
  fixes a b a' b' W :: nat
  assumes "a * W + b = a' * W + b'" "b < W" "b' < W"
  shows "a = a' \<and> b = b'"
proof -
  have "(a * W + b) div W = a" "(a' * W + b') div W = a'"
    using assms(2,3) by simp_all
  then have "a = a'" using assms(1) by simp
  then show ?thesis using assms(1) by simp
qed

lemma row_column_bound:
  fixes a b A B :: nat
  assumes "a < A" "b < B"
  shows "a * B + b < A * B"
proof -
  have "a * B + b < a * B + B" using assms(2) by simp
  also have "\<dots> = Suc a * B" by simp
  also have "\<dots> \<le> A * B" using assms(1) by (intro mult_le_mono1) simp
  finally show ?thesis .
qed

lemma writeBlock2x2_frame:
  assumes "x < w" "x0 < w" "x \<noteq> x0 \<or> y \<noteq> y0" "dx < 2" "dy < 2"
  shows "getPixel (writeBlock2x2 buf x y (w * 2) pR pG pB tr) ((y0 * 2 + dy) * (w * 2) + (x0 * 2 + dx))
           = getPixel buf ((y0 * 2 + dy) * (w * 2) + (x0 * 2 + dx))"
proof -
  have ne: "(y0 * 2 + dy) * (w * 2) + (x0 * 2 + dx) \<noteq> (y * 2 + ey) * (w * 2) + (x * 2 + ex)"
    if "ex < 2" "ey < 2" for ex ey
  proof
    assume eq: "(y0 * 2 + dy) * (w * 2) + (x0 * 2 + dx) = (y * 2 + ey) * (w * 2) + (x * 2 + ex)"
    have "x0 * 2 + dx < w * 2" "x * 2 + ex < w * 2" using assms(1,2,4) that(1) by simp_all
    from row_column_unique [OF eq this]
    have "y0 * 2 + dy = y * 2 + ey" "x0 * 2 + dx = x * 2 + ex" by simp_all
    then have "y0 = y" "x0 = x" using assms(4,5) that by presburger+
    then show False using assms(3) by simp
  qed
  show ?thesis
    unfolding writeBlock2x2_putPixel
    using ne [of 0 0] ne [of 1 0] ne [of 0 1] ne [of 1 1]
    by (simp add: getPixel_putPixel_other)
qed

lemma writeBlock2x2_transparent:
  assumes "x < w" "y < h" "length buf = w * 2 * (h * 2) * 4" "dx < 2" "dy < 2"
  shows "getPixel (writeBlock2x2 buf x y (w * 2) pR pG pB True) ((y * 2 + dy) * (w * 2) + (x * 2 + dx))
           = (0, 0, 0, 0)"
proof -
  have w2: "2 \<le> w * 2" using assms(1) by simp
  have "y * 2 + dy < h * 2" "x * 2 + dx < w * 2" using assms(1,2,4,5) by simp_all
  then have "(y * 2 + dy) * (w * 2) + (x * 2 + dx) < h * 2 * (w * 2)"
    by (rule row_column_bound [of "y * 2 + dy" "h * 2" "x * 2 + dx" "w * 2"])
  then have rng: "4 * ((y * 2 + dy) * (w * 2) + (x * 2 + dx)) + 3 < length buf"
    unfolding assms(3) by (simp add: mult.commute)
  from assms(4,5) have "(dx, dy, dy * 2 + dx) \<in> set offsets"
    unfolding offsets_def
    by (cases "dx = 0"; cases "dy = 0") auto
  from writeBlock2x2_slot [OF w2 this rng, of pR pG pB True]
  show ?thesis by (simp add: slotPixel_def)
qed

section \<open>Transparent pixels\<close>

lemma transparentAt_alpha:
  assumes "(y * width src + x) * 4 + 3 < length (data src)"
    and "unat (data src ! ((y * width src + x) * 4 + 3)) < 50"
  shows "transparentAt src x y"
  using assms by (simp add: transparentAt_def rd_def)

lemma getPixel_bytes:
  assumes "getPixel buf m = (0, 0, 0, 0)" "c < 4"
  shows "buf ! (m * 4 + c) = 0"
proof -
  from assms(2) have "c = 0 \<or> c = 1 \<or> c = 2 \<or> c = 3" by arith
  then show ?thesis using assms(1) by (auto simp: getPixel_def mult.commute)
qed

lemma getPixel_replicate:
  "4 * m + 3 < L \<Longrightarrow> getPixel (replicate L v) m = (v, v, v, v)"
  by (simp add: getPixel_def)

lemma processPixel_invariant:
  assumes n: "2 \<le> n" "n < 2 ^ 32"
    and inv: "buffers_ok n L P st"
    and step: "\<And>buf pR pG pB.
                 P buf \<Longrightarrow> length buf = L \<Longrightarrow>
                 P' (writeBlock2x2 buf x y ow pR pG pB (transparentAt src x y))"
  shows "\<exists>st'. processPixel rnd src n isColor ow y x st = Inr st' \<and> buffers_ok n L P' st'"
proof -
  obtain sd k0 where st: "st = (sd, k0)" by (cases st)
  have len: "length sd = nat n" and bufs: "\<forall>b \<in> set sd. length b = L \<and> P b"
    using inv unfolding buffers_ok_def st by simp_all
  from processPixel_step [OF n len, of rnd src isColor ow y x k0]
  obtain sd' patR patG patB where
    pp: "processPixel rnd src n isColor ow y x (sd, k0) = Inr (sd', k0 + 12)"
    and len': "length sd' = length sd"
    and nth: "\<forall>s < length sd. sd' ! s =
             writeBlock2x2 (sd ! s) x y ow (patR ! s) (patG ! s) (patB ! s)
               (transparentAt src x y)"
    by blast
  have "length b = L \<and> P' b" if b: "b \<in> set sd'" for b
  proof -
    from b obtain s where s: "s < length sd'" and bs: "b = sd' ! s"
      by (auto simp: in_set_conv_nth)
    have sl: "s < length sd" using s len' by simp
    have old: "length (sd ! s) = L" "P (sd ! s)" using bufs sl by simp_all
    have b': "b = writeBlock2x2 (sd ! s) x y ow (patR ! s) (patG ! s) (patB ! s)
                    (transparentAt src x y)"
      using nth sl bs by simp
    have "P' b" unfolding b' by (rule step [OF old(2) old(1)])
    moreover have "length b = L" unfolding b' length_writeBlock2x2 by (rule old(1))
    ultimately show ?thesis by simp
  qed
  then have "buffers_ok n L P' (sd', k0 + 12)" unfolding buffers_ok_def using len len' by simp
  then show ?thesis using pp st by blast
qed

lemma row_invariant:
  assumes n: "2 \<le> n" "n < 2 ^ 32"
    and inv: "buffers_ok n L P st"
    and step: "\<And>x buf pR pG pB.
                 x \<in> set xs \<Longrightarrow> P buf \<Longrightarrow> length buf = L \<Longrightarrow>
                 P (writeBlock2x2 buf x y ow pR pG pB (transparentAt src x y))"
  shows "\<exists>st'. for_each xs (processPixel rnd src n isColor ow y) st = Inr st'
               \<and> buffers_ok n L P st'"
proof (rule for_each_invariant [of "buffers_ok n L P", OF inv])
  fix x st1
  assume x: "x \<in> set xs" and i1: "buffers_ok n L P st1"
  show "\<exists>st'. processPixel rnd src n isColor ow y x st1 = Inr st' \<and> buffers_ok n L P st'"
    by (rule processPixel_invariant [OF n i1]) (rule step [OF x])
qed

lemma for_each_then:
  assumes "for_each xs body st = Inr st1" "for_each ys body st1 = Inr st2"
  shows "for_each (xs @ ys) body st = Inr st2"
  using assms by (simp add: for_each_append)

lemma upt_split:
  assumes "i < m"
  shows "[0 ..< m] = [0 ..< i] @ [i] @ [Suc i ..< m]"
proof -
  have "[0 ..< i + (m - i)] = [0 ..< i] @ [i ..< i + (m - i)]"
    by (rule upt_add_eq_append) simp
  then have "[0 ..< m] = [0 ..< i] @ [i ..< m]" using assms by simp
  also have "[i ..< m] = i # [Suc i ..< m]" using assms by (rule upt_conv_Cons)
  finally show ?thesis by simp
qed

lemma for_each_one: "for_each [i] body st = body i st"
  by (simp split: sum.splits)

lemma pixel_loops_transparent:
  assumes n: "2 \<le> n" "n < 2 ^ 32"
    and x0: "x0 < width src" and y0: "y0 < height src"
    and tr: "transparentAt src x0 y0"
    and inv: "buffers_ok n (width src * 2 * (height src * 2) * 4) (\<lambda>buf. True) st"
  shows "\<exists>st'. for_each [0 ..< height src]
                 (\<lambda>y. for_each [0 ..< width src]
                    (processPixel rnd src n isColor (width src * 2) y)) st = Inr st'
             \<and> buffers_ok n (width src * 2 * (height src * 2) * 4)
                  (\<lambda>buf. \<forall>dx < 2. \<forall>dy < 2.
                     getPixel buf ((y0 * 2 + dy) * (width src * 2) + (x0 * 2 + dx)) = (0, 0, 0, 0))
                  st'"
proof -
  let ?w = "width src" and ?h = "height src"
  let ?L = "?w * 2 * (?h * 2) * 4"
  let ?pp = "processPixel rnd src n isColor (?w * 2)"
  let ?T = "\<lambda>buf :: byte list. True"
  define Z where "Z = (\<lambda>buf :: byte list. \<forall>dx < 2. \<forall>dy < 2.
     getPixel buf ((y0 * 2 + dy) * (?w * 2) + (x0 * 2 + dx)) = (0, 0, 0, 0))"
  have rowT: "\<exists>st'. for_each xs (?pp y) st1 = Inr st' \<and> buffers_ok n ?L ?T st'"
    if "buffers_ok n ?L ?T st1" for xs y st1
    by (rule row_invariant [OF n that]) simp
  have rowZ: "\<exists>st'. for_each xs (?pp y) st1 = Inr st' \<and> buffers_ok n ?L Z st'"
    if ok: "buffers_ok n ?L Z st1" and away: "\<forall>x \<in> set xs. x < ?w \<and> (x \<noteq> x0 \<or> y \<noteq> y0)"
    for xs y st1
  proof (rule row_invariant [OF n ok])
    fix x buf pR pG pB
    assume x: "x \<in> set xs" and z: "Z buf"
    have xw: "x < ?w" and ne: "x \<noteq> x0 \<or> y \<noteq> y0" using away x by blast+
    show "Z (writeBlock2x2 buf x y (?w * 2) pR pG pB (transparentAt src x y))"
      using z writeBlock2x2_frame [OF xw x0 ne] unfolding Z_def by simp
  qed
  have pix0: "\<exists>st'. ?pp y0 x0 st1 = Inr st' \<and> buffers_ok n ?L Z st'"
    if ok: "buffers_ok n ?L ?T st1" for st1
  proof (rule processPixel_invariant [OF n ok])
    fix buf :: "byte list" and pR pG pB
    assume len: "length buf = ?L"
    show "Z (writeBlock2x2 buf x0 y0 (?w * 2) pR pG pB (transparentAt src x0 y0))"
      unfolding Z_def using tr writeBlock2x2_transparent [OF x0 y0 len] by simp
  qed
  have row0: "\<exists>st'. for_each [0 ..< ?w] (?pp y0) st1 = Inr st' \<and> buffers_ok n ?L Z st'"
    if ok: "buffers_ok n ?L ?T st1" for st1
  proof -
    from rowT [OF ok, of "[0 ..< x0]" y0]
    obtain sA where a: "for_each [0 ..< x0] (?pp y0) st1 = Inr sA" and okA: "buffers_ok n ?L ?T sA"
      by blast
    from pix0 [OF okA]
    obtain sB where b: "?pp y0 x0 sA = Inr sB" and okB: "buffers_ok n ?L Z sB" by blast
    have "\<forall>x \<in> set [Suc x0 ..< ?w]. x < ?w \<and> (x \<noteq> x0 \<or> y0 \<noteq> y0)" by simp
    from rowZ [OF okB this]
    obtain sC where c: "for_each [Suc x0 ..< ?w] (?pp y0) sB = Inr sC"
      and okC: "buffers_ok n ?L Z sC" by blast
    have b': "for_each [x0] (?pp y0) sA = Inr sB" using b by (simp only: for_each_one)
    have "for_each ([0 ..< x0] @ [x0] @ [Suc x0 ..< ?w]) (?pp y0) st1 = Inr sC"
      by (rule for_each_then [OF a for_each_then [OF b' c]])
    then show ?thesis using okC upt_split [OF x0] by simp
  qed
  let ?row = "\<lambda>y. for_each [0 ..< ?w] (?pp y)"
  have rowsT: "\<exists>st'. for_each ys ?row st1 = Inr st' \<and> buffers_ok n ?L ?T st'"
    if ok: "buffers_ok n ?L ?T st1" for ys st1
    by (rule for_each_invariant [of "buffers_ok n ?L ?T", OF ok]) (rule rowT)
  have rowsZ: "\<exists>st'. for_each ys ?row st1 = Inr st' \<and> buffers_ok n ?L Z st'"
    if ok: "buffers_ok n ?L Z st1" and away: "\<forall>y \<in> set ys. y \<noteq> y0" for ys st1
  proof (rule for_each_invariant [of "buffers_ok n ?L Z", OF ok])
    fix y st2
    assume y: "y \<in> set ys" and ok2: "buffers_ok n ?L Z st2"
    have "\<forall>x \<in> set [0 ..< ?w]. x < ?w \<and> (x \<noteq> x0 \<or> y \<noteq> y0)" using away y by simp
    from rowZ [OF ok2 this]
    show "\<exists>st'. for_each [0 ..< ?w] (?pp y) st2 = Inr st' \<and> buffers_ok n ?L Z st'" .
  qed
  from rowsT [OF inv, of "[0 ..< y0]"]
  obtain sA where a: "for_each [0 ..< y0] ?row st = Inr sA" and okA: "buffers_ok n ?L ?T sA"
    by blast
  from row0 [OF okA]
  obtain sB where b: "?row y0 sA = Inr sB" and okB: "buffers_ok n ?L Z sB" by blast
  have "\<forall>y \<in> set [Suc y0 ..< ?h]. y \<noteq> y0" by simp
  from rowsZ [OF okB this]
  obtain sC where c: "for_each [Suc y0 ..< ?h] ?row sB = Inr sC" and okC: "buffers_ok n ?L Z sC"
    by blast
  have b': "for_each [y0] ?row sA = Inr sB" using b by (simp only: for_each_one)
  have "for_each ([0 ..< y0] @ [y0] @ [Suc y0 ..< ?h]) ?row st = Inr sC"
    by (rule for_each_then [OF a for_each_then [OF b' c]])
  then have "for_each [0 ..< ?h] ?row st = Inr sC" using upt_split [OF y0] by simp
  then show ?thesis using okC unfolding Z_def by blast
qed

text \<open>
  Claim C6. For a source pixel \<open>(x0, y0)\<close> whose alpha is below 50 and a share count
  of 2, 3 or 4, every byte of the four pixels of its block is written as 0 in every share,
  whatever the pixel's colour and whatever patterns were drawn. First for the loops over
  \<open>y\<close> and \<open>x\<close> started on \<open>n\<close> buffers of the output size and of any content, so
  the zeros are those the block writer stores and no later block overwrites; then for the
  shares that \<^verbatim>\<open>generateVisualShares\<close> returns.
\<close>

theorem transparency_pass_through:
  assumes "2 \<le> n" and "n \<le> 4" and "x0 < width src" and "y0 < height src"
    and "(y0 * width src + x0) * 4 + 3 < length (data src)"
    and "unat (data src ! ((y0 * width src + x0) * 4 + 3)) < 50"
    and "map length sharesData = replicate (nat n) (width src * 2 * (height src * 2) * 4)"
  shows "(\<exists>sharesData' k'.
            for_each [0 ..< height src]
              (\<lambda>y. for_each [0 ..< width src]
                 (processPixel rnd src n isColor (width src * 2) y)) (sharesData, k)
              = Inr (sharesData', k')
          \<and> length sharesData' = nat n
          \<and> (\<forall>buf \<in> set sharesData'. \<forall>dx < 2. \<forall>dy < 2. \<forall>c < 4.
                buf ! (((y0 * 2 + dy) * (width src * 2) + (x0 * 2 + dx)) * 4 + c) = 0))
       \<and> (\<exists>shares. generateVisualShares rnd k src n isColor = Inr shares
          \<and> length shares = nat n
          \<and> (\<forall>sh \<in> set shares. \<forall>dx < 2. \<forall>dy < 2. \<forall>c < 4.
                data sh ! (((y0 * 2 + dy) * (width src * 2) + (x0 * 2 + dx)) * 4 + c) = 0))"
proof -
  let ?w = "width src" and ?h = "height src"
  let ?L = "?w * 2 * (?h * 2) * 4"
  let ?m = "\<lambda>dx dy. (y0 * 2 + dy) * (?w * 2) + (x0 * 2 + dx)"
  define Q where "Q = (\<lambda>buf :: byte list. \<forall>dx < 2. \<forall>dy < 2. getPixel buf (?m dx dy) = (0, 0, 0, 0))"
  have n: "n < 2 ^ 32" using assms(2) by simp
  have dims: "0 < ?w" "0 < ?h" using assms(3,4) by simp_all
  have tr: "transparentAt src x0 y0" by (rule transparentAt_alpha [OF assms(5,6)])
  have bytes: "\<forall>dx < 2. \<forall>dy < 2. \<forall>c < 4. buf ! (?m dx dy * 4 + c) = 0" if "Q buf" for buf
    using that getPixel_bytes unfolding Q_def by blast
  \<comment> \<open>the loops, started on any buffers of the right size\<close>
  have sizes: "length buf = ?L" if "buf \<in> set sharesData" for buf
  proof -
    from that have "length buf \<in> set (map length sharesData)" by simp
    then have "length buf \<in> set (replicate (nat n) ?L)" unfolding assms(7) .
    then show ?thesis by simp
  qed
  have "length (map length sharesData) = nat n" unfolding assms(7) by simp
  then have count: "length sharesData = nat n" by simp
  have "buffers_ok n ?L (\<lambda>buf. True) (sharesData, k)"
    unfolding buffers_ok_def using count sizes by simp
  from pixel_loops_transparent [OF assms(1) n assms(3,4) tr this, of rnd isColor]
  obtain st' where
    run: "for_each [0 ..< ?h] (\<lambda>y. for_each [0 ..< ?w] (processPixel rnd src n isColor (?w * 2) y))
            (sharesData, k) = Inr st'"
    and ok: "buffers_ok n ?L Q st'"
    unfolding Q_def by blast
  obtain sd' k' where st': "st' = (sd', k')" by (cases st')
  have "length sd' = nat n" and "\<forall>buf \<in> set sd'. Q buf"
    using ok unfolding buffers_ok_def st' by simp_all
  then have loops: "\<exists>sharesData' k'.
            for_each [0 ..< ?h] (\<lambda>y. for_each [0 ..< ?w] (processPixel rnd src n isColor (?w * 2) y))
              (sharesData, k) = Inr (sharesData', k')
          \<and> length sharesData' = nat n
          \<and> (\<forall>buf \<in> set sharesData'. \<forall>dx < 2. \<forall>dy < 2. \<forall>c < 4.
                buf ! (?m dx dy * 4 + c) = 0)"
    using run bytes unfolding st' by blast
  \<comment> \<open>the encoder itself\<close>
  have rng: "4 * ?m dx dy + 3 < ?L" if "dx < 2" "dy < 2" for dx dy
  proof -
    have "y0 * 2 + dy < ?h * 2" "x0 * 2 + dx < ?w * 2" using assms(3,4) that by simp_all
    then have "?m dx dy < ?h * 2 * (?w * 2)"
      by (rule row_column_bound [of "y0 * 2 + dy" "?h * 2" "x0 * 2 + dx" "?w * 2"])
    then show ?thesis by (simp add: mult.commute)
  qed
  have init: "Q (replicate ?L 0)"
    unfolding Q_def using getPixel_replicate [OF rng] by blast
  have step: "Q (writeBlock2x2 buf x y (?w * 2) pR pG pB (transparentAt src x y))"
    if q: "Q buf" and len: "length buf = ?L" and x: "x < ?w" and y: "y < ?h"
    for buf x y pR pG pB
  proof (cases "x = x0 \<and> y = y0")
    case True
    show ?thesis
      unfolding Q_def using True tr writeBlock2x2_transparent [OF assms(3,4) len]
      by simp
  next
    case False
    then have ne: "x \<noteq> x0 \<or> y \<noteq> y0" by blast
    show ?thesis
      unfolding Q_def using q writeBlock2x2_frame [OF x assms(3) ne]
      by (simp add: Q_def)
  qed
  from encode_invariant [of n src Q rnd k isColor, OF assms(1) n dims init step]
  obtain shares where r: "generateVisualShares rnd k src n isColor = Inr shares"
    and len: "length shares = nat n"
    and each: "\<forall>sh \<in> set shares. Q (data sh)"
    by blast
  have "\<forall>sh \<in> set shares. \<forall>dx < 2. \<forall>dy < 2. \<forall>c < 4. data sh ! (?m dx dy * 4 + c) = 0"
    using each bytes by blast
  with r len have enc: "\<exists>shares. generateVisualShares rnd k src n isColor = Inr shares
          \<and> length shares = nat n
          \<and> (\<forall>sh \<in> set shares. \<forall>dx < 2. \<forall>dy < 2. \<forall>c < 4.
                data sh ! (?m dx dy * 4 + c) = 0)"
    by blast
  from loops enc show ?thesis by (rule conjI)
qed

theorem transparency_pass_through_witness:
  "(2::int) \<le> 2 \<and> (2::int) \<le> 4 \<and> 1 < width sampleImage \<and> 0 < height sampleImage
   \<and> (0 * width sampleImage + 1) * 4 + 3 < length (data sampleImage)
   \<and> unat (data sampleImage ! ((0 * width sampleImage + 1) * 4 + 3)) < 50
   \<and> map length (replicate 2 (replicate 32 (7::byte)))
       = replicate (nat 2) (width sampleImage * 2 * (height sampleImage * 2) * 4)
   \<and> (\<exists>sharesData' k'.
            for_each [0 ..< height sampleImage]
              (\<lambda>y. for_each [0 ..< width sampleImage]
                 (processPixel (replay [1/2, 1/4]) sampleImage 2 True (width sampleImage * 2) y))
              (replicate 2 (replicate 32 7), 0)
              = Inr (sharesData', k')
          \<and> length sharesData' = nat 2
          \<and> (\<forall>buf \<in> set sharesData'. \<forall>dx < 2. \<forall>dy < 2. \<forall>c < 4.
                buf ! (((0 * 2 + dy) * (width sampleImage * 2) + (1 * 2 + dx)) * 4 + c) = 0))
   \<and> (\<exists>shares. generateVisualShares (replay [1/2, 1/4]) 0 sampleImage 2 True = Inr shares
           \<and> length shares = nat 2
           \<and> (\<forall>sh \<in> set shares. \<forall>dx < 2. \<forall>dy < 2. \<forall>c < 4.
                 data sh ! (((0 * 2 + dy) * (width sampleImage * 2) + (1 * 2 + dx)) * 4 + c) = 0))"
proof -
  have h1: "(2::int) \<le> 2" by simp
  have h2: "(2::int) \<le> 4" by simp
  have h3: "1 < width sampleImage" by (simp add: sampleImage_def)
  have h4: "0 < height sampleImage" by (simp add: sampleImage_def)
  have h5: "(0 * width sampleImage + 1) * 4 + 3 < length (data sampleImage)"
    by (simp add: sampleImage_def)
  have h6: "unat (data sampleImage ! ((0 * width sampleImage + 1) * 4 + 3)) < 50"
    by (simp add: sampleImage_def)
  have h7: "map length (replicate 2 (replicate 32 (7::byte)))
       = replicate (nat 2) (width sampleImage * 2 * (height sampleImage * 2) * 4)"
    by (simp add: sampleImage_def)
  from transparency_pass_through [OF h1 h2 h3 h4 h5 h6 h7,
      where rnd = "replay [1/2, 1/4]" and k = 0 and isColor = True]
    h1 h2 h3 h4 h5 h6 h7
  show ?thesis by blast
qed

section \<open>Only two byte values\<close>

lemma clamp8_bit:
  assumes "b = 0 \<or> b = 1"
  shows "clamp8 ((1 - b) * 255) = 0 \<or> clamp8 ((1 - b) * 255) = 255"
  using assms by (auto simp: clamp8_def)

lemma slotPixel_binary:
  assumes "i < 4"
    and "length pR = 4 \<and> set pR \<subseteq> {0, 1}"
    and "length pG = 4 \<and> set pG \<subseteq> {0, 1}"
    and "length pB = 4 \<and> set pB \<subseteq> {0, 1}"
  shows "binaryPixel (slotPixel pR pG pB tr i)"
proof -
  have "pR ! i \<in> set pR" "pG ! i \<in> set pG" "pB ! i \<in> set pB"
    using assms by simp_all
  then have "pR ! i = 0 \<or> pR ! i = 1" "pG ! i = 0 \<or> pG ! i = 1" "pB ! i = 0 \<or> pB ! i = 1"
    using assms(2-4) by blast+
  from clamp8_bit [OF this(1)] clamp8_bit [OF this(2)] clamp8_bit [OF this(3)]
  show ?thesis by (simp add: slotPixel_def binaryPixel_def)
qed

lemma putPixel_binary:
  assumes "\<forall>m. 4 * m + 3 < length buf \<longrightarrow> binaryPixel (getPixel buf m)"
    and "binaryPixel v"
  shows "\<forall>m. 4 * m + 3 < length (putPixel buf m' v) \<longrightarrow> binaryPixel (getPixel (putPixel buf m' v) m)"
proof (intro allI impI)
  fix m assume m: "4 * m + 3 < length (putPixel buf m' v)"
  then have ml: "4 * m + 3 < length buf" by (simp add: length_putPixel)
  show "binaryPixel (getPixel (putPixel buf m' v) m)"
  proof (cases "m = m'")
    case True
    then show ?thesis using getPixel_putPixel_same [of m' buf v] ml assms(2) by simp
  next
    case False
    then show ?thesis using getPixel_putPixel_other [of m m' buf v] ml assms(1) by simp
  qed
qed

lemma writeBlock2x2_binary:
  assumes "\<forall>m. 4 * m + 3 < length buf \<longrightarrow> binaryPixel (getPixel buf m)"
    and "length pR = 4 \<and> set pR \<subseteq> {0, 1}"
    and "length pG = 4 \<and> set pG \<subseteq> {0, 1}"
    and "length pB = 4 \<and> set pB \<subseteq> {0, 1}"
  shows "\<forall>m. 4 * m + 3 < length (writeBlock2x2 buf x y w pR pG pB tr)
             \<longrightarrow> binaryPixel (getPixel (writeBlock2x2 buf x y w pR pG pB tr) m)"
proof -
  have b: "binaryPixel (slotPixel pR pG pB tr i)" if "i < 4" for i
    by (rule slotPixel_binary [OF that assms(2-4)])
  show ?thesis
    unfolding writeBlock2x2_putPixel
    by (intro putPixel_binary assms(1) b) simp_all
qed

lemma binaryPixel_bytes:
  assumes "binaryPixel (getPixel buf m)" "c < 4"
  shows "buf ! (4 * m + c) = 0 \<or> buf ! (4 * m + c) = 255"
proof -
  from assms(2) have "c = 0 \<or> c = 1 \<or> c = 2 \<or> c = 3" by arith
  then show ?thesis using assms(1) by (auto simp: getPixel_def binaryPixel_def)
qed

text \<open>
  Claim C10. For a share count of 2, 3 or 4, every pixel of every returned share is either
  \<open>(0, 0, 0, 0)\<close> or has alpha 255 and each colour byte 0 or 255; no other byte value
  occurs in a share.
\<close>

theorem shares_are_binary:
  assumes "2 \<le> n" and "n \<le> 4" and "0 < width src" and "0 < height src"
  shows "\<exists>shares. generateVisualShares rnd k src n isColor = Inr shares
           \<and> length shares = nat n
           \<and> (\<forall>sh \<in> set shares.
                 length (data sh) = 4 * (width sh * height sh)
               \<and> (\<forall>m < width sh * height sh. binaryPixel (getPixel (data sh) m))
               \<and> (\<forall>i < length (data sh). data sh ! i = 0 \<or> data sh ! i = 255))"
proof -
  let ?L = "width src * 2 * (height src * 2) * 4"
  define Q where
    "Q = (\<lambda>buf :: byte list. \<forall>m. 4 * m + 3 < length buf \<longrightarrow> binaryPixel (getPixel buf m))"
  have n: "n < 2 ^ 32" using assms(2) by simp
  have init: "Q (replicate ?L 0)"
    unfolding Q_def using getPixel_replicate [of _ ?L 0] by (simp add: binaryPixel_def)
  have step: "Q (writeBlock2x2 buf x y (width src * 2) pR pG pB (transparentAt src x y))"
    if "Q buf" "length pR = 4 \<and> set pR \<subseteq> {0, 1}" "length pG = 4 \<and> set pG \<subseteq> {0, 1}"
       "length pB = 4 \<and> set pB \<subseteq> {0, 1}"
    for buf x y pR pG pB
    using writeBlock2x2_binary [OF _ that(2-4)] that(1) unfolding Q_def by blast
  from encode_invariant [of n src Q rnd k isColor, OF assms(1) n assms(3,4) init step]
  obtain shares where r: "generateVisualShares rnd k src n isColor = Inr shares"
    and len: "length shares = nat n"
    and each: "\<forall>sh \<in> set shares. width sh = width src * 2 \<and> height sh = height src * 2
                 \<and> length (data sh) = ?L \<and> Q (data sh)"
    by blast
  have "length (data sh) = 4 * (width sh * height sh)
      \<and> (\<forall>m < width sh * height sh. binaryPixel (getPixel (data sh) m))
      \<and> (\<forall>i < length (data sh). data sh ! i = 0 \<or> data sh ! i = 255)"
    if sh: "sh \<in> set shares" for sh
  proof -
    have l: "length (data sh) = 4 * (width sh * height sh)" and q: "Q (data sh)"
      using each sh by (simp_all add: mult.commute)
    have px: "binaryPixel (getPixel (data sh) m)" if "m < width sh * height sh" for m
      using q that l unfolding Q_def by simp
    have bytes: "data sh ! i = 0 \<or> data sh ! i = 255" if i: "i < length (data sh)" for i
    proof -
      have m: "i div 4 < width sh * height sh" using i l by simp
      have c: "i mod 4 < 4" by simp
      from binaryPixel_bytes [OF px [OF m] c] show ?thesis by simp
    qed
    from l px bytes show ?thesis by blast
  qed
  with r len show ?thesis by blast
qed

theorem shares_are_binary_witness:
  "(2::int) \<le> 4 \<and> (4::int) \<le> 4 \<and> 0 < width sampleImage \<and> 0 < height sampleImage
   \<and> (\<exists>shares. generateVisualShares (replay [1/2, 1/4]) 0 sampleImage 4 False = Inr shares
           \<and> length shares = nat 4
           \<and> (\<forall>sh \<in> set shares.
                 length (data sh) = 4 * (width sh * height sh)
               \<and> (\<forall>m < width sh * height sh. binaryPixel (getPixel (data sh) m))
               \<and> (\<forall>i < length (data sh). data sh ! i = 0 \<or> data sh ! i = 255)))"
proof -
  have h1: "(2::int) \<le> 4" by simp
  have h2: "(4::int) \<le> 4" by simp
  have h3: "0 < width sampleImage" by (simp add: sampleImage_def)
  have h4: "0 < height sampleImage" by (simp add: sampleImage_def)
  from shares_are_binary [OF h1 h2 h3 h4, of "replay [1/2, 1/4]" 0 False] h1 h2 h3 h4
  show ?thesis by blast
qed

end
